theory Spec2Isabelle
  imports Complex_Main
begin

section \<open>Weights\<close>

text \<open>
  Arc weights and scores are C++ \<open>float\<close>s, IEEE 754 binary32 numbers. A finite float
  is taken as the real number it denotes, beside \<open>-inf\<close>, \<open>+inf\<close> and NaN. Every
  arithmetic operation rounds its exact result to the nearest binary32 number, ties to
  the even significand, and overflows to an infinity: \<open>rne\<close> rounds a real to the
  nearest integer, \<open>expo32\<close> is the binary exponent of a real, not below the exponent of
  the subnormal numbers, and \<open>round32\<close> rounds to 24 significant bits at that exponent.
  The two zeros are one value: they compare equal and the code never divides. There is
  one NaN. The special cases of each operation follow IEEE 754.
\<close>

datatype float = NInf | Fin real | PInf | NaN

definition rne :: "real \<Rightarrow> int" where
  "rne q = (let f = \<lfloor>q\<rfloor>; r = q - of_int f in
     if r < 1 / 2 then f else if 1 / 2 < r then f + 1 else if even f then f else f + 1)"

definition expo32 :: "real \<Rightarrow> int" where
  "expo32 x = max \<lfloor>log 2 \<bar>x\<bar>\<rfloor> (- 126)"

definition round32 :: "real \<Rightarrow> float" where
  "round32 x =
     (let u = 2 powi (expo32 x - 23); y = of_int (rne (x / u)) * u in
      if 2 ^ 128 \<le> \<bar>y\<bar> then (if 0 < x then PInf else NInf) else Fin y)"

text \<open>The largest finite float, \<open>FLT_MAX\<close>.\<close>

definition flt_max :: real where
  "flt_max = (2 ^ 24 - 1) * 2 ^ 104"

fun fneg :: "float \<Rightarrow> float" where
  "fneg NInf = PInf"
| "fneg (Fin a) = Fin (- a)"
| "fneg PInf = NInf"
| "fneg NaN = NaN"

fun fadd :: "float \<Rightarrow> float \<Rightarrow> float" where
  "fadd NaN _ = NaN"
| "fadd _ NaN = NaN"
| "fadd (Fin a) (Fin b) = round32 (a + b)"
| "fadd (Fin a) NInf = NInf"
| "fadd (Fin a) PInf = PInf"
| "fadd NInf (Fin b) = NInf"
| "fadd PInf (Fin b) = PInf"
| "fadd NInf NInf = NInf"
| "fadd PInf PInf = PInf"
| "fadd NInf PInf = NaN"
| "fadd PInf NInf = NaN"

text \<open>\<open>a - b\<close> is \<open>a + (-b)\<close> in every case, the rounding included.\<close>

definition fsub :: "float \<Rightarrow> float \<Rightarrow> float" where
  "fsub a b = fadd a (fneg b)"

fun fabs :: "float \<Rightarrow> float" where
  "fabs NInf = PInf"
| "fabs (Fin a) = Fin \<bar>a\<bar>"
| "fabs PInf = PInf"
| "fabs NaN = NaN"

text \<open>
  \<open>std::exp\<close> and \<open>std::log1p\<close> of a float are \<open>expf\<close> and \<open>log1pf\<close> of the C
  library, which is not part of the repository. They are taken to return the correctly
  rounded value; the library promises an error below one unit in the last place. No
  result below depends on more of them than their values at the infinities, NaN and 0.
\<close>

fun fexp :: "float \<Rightarrow> float" where
  "fexp NInf = Fin 0"
| "fexp (Fin a) = round32 (exp a)"
| "fexp PInf = PInf"
| "fexp NaN = NaN"

fun flog1p :: "float \<Rightarrow> float" where
  "flog1p NInf = NaN"
| "flog1p (Fin a) = (if -1 < a then round32 (ln (1 + a)) else if a = -1 then NInf else NaN)"
| "flog1p PInf = PInf"
| "flog1p NaN = NaN"

fun fmul :: "float \<Rightarrow> float \<Rightarrow> float" where
  "fmul NaN _ = NaN"
| "fmul _ NaN = NaN"
| "fmul (Fin a) (Fin b) = round32 (a * b)"
| "fmul (Fin a) NInf = (if a = 0 then NaN else if 0 < a then NInf else PInf)"
| "fmul (Fin a) PInf = (if a = 0 then NaN else if 0 < a then PInf else NInf)"
| "fmul NInf (Fin b) = (if b = 0 then NaN else if 0 < b then NInf else PInf)"
| "fmul PInf (Fin b) = (if b = 0 then NaN else if 0 < b then PInf else NInf)"
| "fmul NInf NInf = PInf"
| "fmul PInf PInf = PInf"
| "fmul NInf PInf = NInf"
| "fmul PInf NInf = NInf"

text \<open>The comparisons \<open>==\<close> and \<open><\<close>: false as soon as one side is NaN.\<close>

fun feq :: "float \<Rightarrow> float \<Rightarrow> bool" where
  "feq NaN _ = False"
| "feq _ NaN = False"
| "feq a b = (a = b)"

fun fless :: "float \<Rightarrow> float \<Rightarrow> bool" where
  "fless NaN _ = False"
| "fless _ NaN = False"
| "fless (Fin a) (Fin b) = (a < b)"
| "fless NInf NInf = False"
| "fless NInf _ = True"
| "fless _ NInf = False"
| "fless PInf _ = False"
| "fless _ PInf = True"

text \<open>\<open>std::max(a, b)\<close> is \<open>(a < b) ? b : a\<close>.\<close>

definition fmax :: "float \<Rightarrow> float \<Rightarrow> float" where
  "fmax a b = (if fless a b then b else a)"

definition neginf :: float where
  "neginf = NInf"

text \<open>
  \<open>logadd\<close> of functions.cpp: the two tests against \<open>neginf\<close>, then
  \<open>max(a, b) + log1p(exp(-abs(a - b)))\<close>.
\<close>

definition logadd :: "float \<Rightarrow> float \<Rightarrow> float" where
  "logadd a b =
     (if feq a neginf then b
      else if feq b neginf then a
      else fadd (fmax a b) (flog1p (fexp (fneg (fabs (fsub a b))))))"

section \<open>Graphs\<close>

datatype error = InvalidOperation | ShapeMismatch | CycleDetected | IndexOutOfRange

text \<open>
  Modelled from the spec: the \<open>Graph\<close> class (graph.h, graph.cpp) is not among the
  sources; its data and operations follow sections 3 and 4.1 of the specification. Nodes
  are indexed in insertion order and carry a start and an accept flag; the graph keeps the
  lists of start and of accept nodes in insertion order; arcs are indexed in insertion
  order and carry source, destination, input label, output label and weight.
\<close>

record arc =
  up :: nat
  down :: nat
  il :: int
  ol :: int
  wt :: float

record graph =
  nodes :: "(bool \<times> bool) list"
  arcs :: "arc list"
  startL :: "nat list"
  acceptL :: "nat list"

definition epsilon :: int where
  "epsilon = 0"

definition emptyGraph :: graph where
  "emptyGraph = \<lparr>nodes = [], arcs = [], startL = [], acceptL = []\<rparr>"

definition numNodes :: "graph \<Rightarrow> nat" where
  "numNodes g = length (nodes g)"

definition numArcs :: "graph \<Rightarrow> nat" where
  "numArcs g = length (arcs g)"

definition start :: "graph \<Rightarrow> nat \<Rightarrow> bool" where
  "start g n = fst (nodes g ! n)"

definition accept :: "graph \<Rightarrow> nat \<Rightarrow> bool" where
  "accept g n = snd (nodes g ! n)"

definition upNode :: "graph \<Rightarrow> nat \<Rightarrow> nat" where
  "upNode g a = up (arcs g ! a)"

definition downNode :: "graph \<Rightarrow> nat \<Rightarrow> nat" where
  "downNode g a = down (arcs g ! a)"

definition ilabel :: "graph \<Rightarrow> nat \<Rightarrow> int" where
  "ilabel g a = il (arcs g ! a)"

definition olabel :: "graph \<Rightarrow> nat \<Rightarrow> int" where
  "olabel g a = ol (arcs g ! a)"

definition weight :: "graph \<Rightarrow> nat \<Rightarrow> float" where
  "weight g a = wt (arcs g ! a)"

text \<open>\<open>in(n)\<close> and \<open>out(n)\<close>: the arcs entering and leaving \<open>n\<close>, in arc-insertion order.\<close>

definition inArcs :: "graph \<Rightarrow> nat \<Rightarrow> nat list" where
  "inArcs g n = filter (\<lambda>a. downNode g a = n) [0..<numArcs g]"

definition outArcs :: "graph \<Rightarrow> nat \<Rightarrow> nat list" where
  "outArcs g n = filter (\<lambda>a. upNode g a = n) [0..<numArcs g]"

definition numIn :: "graph \<Rightarrow> nat \<Rightarrow> nat" where
  "numIn g n = length (inArcs g n)"

definition numOut :: "graph \<Rightarrow> nat \<Rightarrow> nat" where
  "numOut g n = length (outArcs g n)"

text \<open>\<open>addNode(start, accept)\<close> returns the index of the new node.\<close>

definition addNode :: "bool \<Rightarrow> bool \<Rightarrow> graph \<Rightarrow> graph" where
  "addNode s a g =
     g\<lparr>nodes := nodes g @ [(s, a)],
       startL := (if s then startL g @ [numNodes g] else startL g),
       acceptL := (if a then acceptL g @ [numNodes g] else acceptL g)\<rparr>"

definition makeAccept :: "nat \<Rightarrow> graph \<Rightarrow> graph" where
  "makeAccept n g =
     (if accept g n then g
      else g\<lparr>nodes := (nodes g)[n := (start g n, True)], acceptL := acceptL g @ [n]\<rparr>)"

definition addArc :: "nat \<Rightarrow> nat \<Rightarrow> int \<Rightarrow> int \<Rightarrow> float \<Rightarrow> graph \<Rightarrow> graph" where
  "addArc u d i j w g = g\<lparr>arcs := arcs g @ [\<lparr>up = u, down = d, il = i, ol = j, wt = w\<rparr>]\<rparr>"

text \<open>
  A well-formed graph: arcs join existing nodes, and the two lists hold exactly the
  flagged nodes, once each. Every graph built by \<open>addNode\<close>, \<open>makeAccept\<close> and
  \<open>addArc\<close> between existing nodes is of this kind.
\<close>

definition wf_graph :: "graph \<Rightarrow> bool" where
  "wf_graph g \<longleftrightarrow>
     list_all (\<lambda>a. up a < numNodes g \<and> down a < numNodes g) (arcs g) \<and>
     distinct (startL g) \<and> distinct (acceptL g) \<and>
     set (startL g) = set (filter (start g) [0..<numNodes g]) \<and>
     set (acceptL g) = set (filter (accept g) [0..<numNodes g])"

text \<open>
  An item graph has two nodes (start 0, accept 1) and one arc from 0 to 1 with labels 0/0;
  \<open>item()\<close> is its weight and fails on any other graph.
\<close>

definition itemGraph :: "float \<Rightarrow> graph" where
  "itemGraph w = addArc 0 1 0 0 w (addNode False True (addNode True False emptyGraph))"

definition item :: "graph \<Rightarrow> error + float" where
  "item g =
     (if nodes g = [(True, False), (False, True)] \<and> startL g = [0] \<and> acceptL g = [1] \<and>
         (case arcs g of [a] \<Rightarrow> up a = 0 \<and> down a = 1 \<and> il a = 0 \<and> ol a = 0 | _ \<Rightarrow> False)
      then Inr (weight g 0) else Inl InvalidOperation)"


section \<open>Gradient accumulators\<close>

text \<open>
  Modelled from the spec: graph handles share their underlying state, which owns the
  gradient accumulator (sections 3 and 4.1). The store maps the address of a state to the
  graph it holds and its accumulated gradient, absent before the first \<open>addGrad\<close>; a handle
  is an address together with its \<open>calcGrad\<close> bit. A graph whose \<open>calcGrad\<close> is false
  receives no gradient writes (sections 2 and 4.9): \<open>addGrad\<close> through such a handle
  leaves the store as it is, whatever the vector, which is what the backward closure of
  \<open>compose\<close> relies on when it hands an empty vector to an input that takes no
  gradient. Through any other handle \<open>addGrad\<close> adds a vector of one weight per arc, and
  fails with \<open>ShapeMismatch\<close> on any other length.
\<close>

record gstate =
  sgraph :: graph
  sgrad :: "float list option"

record handle =
  href :: nat
  calcGrad :: bool

type_synonym store = "nat \<Rightarrow> gstate"

definition accum :: "float list option \<Rightarrow> float list \<Rightarrow> float list option" where
  "accum old v = (case old of None \<Rightarrow> Some v | Some u \<Rightarrow> Some (map2 fadd u v))"

definition accumAt :: "nat \<Rightarrow> float list \<Rightarrow> store \<Rightarrow> store" where
  "accumAt r v \<sigma> = \<sigma>(r := (\<sigma> r)\<lparr>sgrad := accum (sgrad (\<sigma> r)) v\<rparr>)"

definition addGrad :: "handle \<Rightarrow> float list \<Rightarrow> store \<Rightarrow> error + store" where
  "addGrad h v \<sigma> =
     (if \<not> calcGrad h then Inr \<sigma>
      else if length v \<noteq> numArcs (sgraph (\<sigma> (href h))) then Inl ShapeMismatch
      else Inr (accumAt (href h) v \<sigma>))"

text \<open>\<open>addGrad(Graph)\<close> adds the arc weights of the graph it is given.\<close>

definition addGradG :: "handle \<Rightarrow> graph \<Rightarrow> store \<Rightarrow> error + store" where
  "addGradG h d \<sigma> = addGrad h (map wt (arcs d)) \<sigma>"

section \<open>Item arithmetic\<close>

text \<open>
  \<open>negate\<close> and \<open>subtract\<close> of functions.cpp. Each reads \<open>item()\<close> of its inputs, which
  fails on a graph that is not an item graph, and builds the result with two \<open>addNode\<close>
  calls and one \<open>addArc\<close>. The backward closure of each is a function of its own, from the
  input handles and the incoming deltas to the updated store.
\<close>

definition negate :: "graph \<Rightarrow> error + graph" where
  "negate other =
     (case item other of Inl e \<Rightarrow> Inl e
      | Inr x \<Rightarrow> Inr (addArc 0 1 0 0 (fneg x)
                      (addNode False True (addNode True False emptyGraph))))"

definition negate_gradFunc :: "handle list \<Rightarrow> graph \<Rightarrow> store \<Rightarrow> error + store" where
  "negate_gradFunc inputs deltas \<sigma> =
     (case negate deltas of Inl e \<Rightarrow> Inl e | Inr nd \<Rightarrow> addGradG (inputs ! 0) nd \<sigma>)"

definition subtract :: "graph \<Rightarrow> graph \<Rightarrow> error + graph" where
  "subtract lhs rhs =
     (case item lhs of Inl e \<Rightarrow> Inl e
      | Inr x \<Rightarrow>
        (case item rhs of Inl e \<Rightarrow> Inl e
         | Inr y \<Rightarrow> Inr (addArc 0 1 0 0 (fsub x y)
                         (addNode False True (addNode True False emptyGraph)))))"

definition subtract_gradFunc :: "handle list \<Rightarrow> graph \<Rightarrow> store \<Rightarrow> error + store" where
  "subtract_gradFunc inputs deltas \<sigma> =
     (case addGradG (inputs ! 0) deltas \<sigma> of Inl e \<Rightarrow> Inl e
      | Inr \<sigma>1 \<Rightarrow>
        (case negate deltas of Inl e \<Rightarrow> Inl e
         | Inr nd \<Rightarrow> addGradG (inputs ! 1) nd \<sigma>1))"

section \<open>Closure\<close>

text \<open>
  Modelled from the spec: the three-argument \<open>addArc(up, down, label)\<close> of the absent
  \<open>Graph\<close> class adds an arc with the label on both sides and weight 0, and the
  accessor \<open>weight(i)\<close> fails with \<open>IndexOutOfRange\<close> on an invalid arc index.
\<close>

definition addArcL :: "nat \<Rightarrow> nat \<Rightarrow> int \<Rightarrow> graph \<Rightarrow> graph" where
  "addArcL u d l g = addArc u d l l (Fin 0) g"

definition weightAt :: "graph \<Rightarrow> nat \<Rightarrow> error + float" where
  "weightAt g i = (if i < numArcs g then Inr (weight g i) else Inl IndexOutOfRange)"

text \<open>
  \<open>closure\<close> of functions.cpp: the new node, one node per node of the input, the arcs of
  the input with shifted endpoints, then for each start node \<open>s\<close> of the list
  \<open>start()\<close> the arc from the new node and the arcs from every accept node of the list
  \<open>accept()\<close>.
\<close>

definition closure :: "graph \<Rightarrow> graph" where
  "closure g =
     (let closed0 = addNode True True emptyGraph;
          closed1 = fold (\<lambda>n c. addNode False (accept g n) c) [0..<numNodes g] closed0;
          closed2 = fold (\<lambda>a c. addArc (upNode g a + 1) (downNode g a + 1)
                                   (ilabel g a) (olabel g a) (weight g a) c)
                      [0..<numArcs g] closed1
      in fold (\<lambda>s c. fold (\<lambda>a c'. addArcL (a + 1) (s + 1) epsilon c') (acceptL g)
                        (addArcL 0 (s + 1) epsilon c))
           (startL g) closed2)"

text \<open>The loop \<open>grad[i] = deltas.weight(i)\<close> of the backward closures.\<close>

fun readWeights :: "graph \<Rightarrow> nat list \<Rightarrow> error + float list" where
  "readWeights d [] = Inr []"
| "readWeights d (i # is) =
     (case weightAt d i of Inl e \<Rightarrow> Inl e
      | Inr w \<Rightarrow> (case readWeights d is of Inl e \<Rightarrow> Inl e | Inr ws \<Rightarrow> Inr (w # ws)))"

definition closure_gradFunc :: "handle list \<Rightarrow> graph \<Rightarrow> store \<Rightarrow> error + store" where
  "closure_gradFunc inputs deltas \<sigma> =
     (if calcGrad (inputs ! 0)
      then (case readWeights deltas [0..<numArcs (sgraph (\<sigma> (href (inputs ! 0))))] of
              Inl e \<Rightarrow> Inl e
            | Inr grad \<Rightarrow> addGrad (inputs ! 0) grad \<sigma>)
      else Inr \<sigma>)"

text \<open>The arcs of a closure: the shifted copies, then the epsilon arcs.\<close>

definition epsArc :: "nat \<Rightarrow> nat \<Rightarrow> arc" where
  "epsArc u d = \<lparr>up = u, down = d, il = 0, ol = 0, wt = Fin 0\<rparr>"

definition shiftArc :: "arc \<Rightarrow> arc" where
  "shiftArc a = a\<lparr>up := up a + 1, down := down a + 1\<rparr>"

definition closureEps :: "graph \<Rightarrow> arc list" where
  "closureEps g =
     concat (map (\<lambda>s. epsArc 0 (s + 1) # map (\<lambda>a. epsArc (a + 1) (s + 1)) (acceptL g))
       (startL g))"

section \<open>Forward\<close>

text \<open>
  \<open>forward\<close> of functions.cpp. The vectors \<open>scores\<close> and \<open>degrees\<close> have one entry per
  node and the queue \<open>computed\<close> is a list, popped at the head and pushed at the end. The
  source reserves the storage of \<open>degrees\<close> and then writes its entries; the model takes
  it as a vector of that many entries. Beyond that the source writes outside a vector
  only when an arc ends at a node that does not exist; the model leaves the vectors as
  they are there and pushes nothing.
\<close>

definition forward_init :: "graph \<Rightarrow> float list \<times> int list \<times> nat list" where
  "forward_init g =
     (let scores = replicate (numNodes g) neginf;
          degrees = map (\<lambda>n. int (numIn g n)) [0..<numNodes g];
          (scores', computed) =
            fold (\<lambda>n (sc, q). (sc[n := Fin 0], if numIn g n = 0 then q @ [n] else q))
              (startL g) (scores, [])
      in (scores', degrees, computed))"

text \<open>The body of the loop over the arcs leaving the popped node, whose score is \<open>score\<close>.\<close>

definition forward_arc ::
  "graph \<Rightarrow> float \<Rightarrow> nat \<Rightarrow> float list \<times> int list \<times> nat list
    \<Rightarrow> float list \<times> int list \<times> nat list" where
  "forward_arc g score a = (\<lambda>(scores, degrees, computed).
     (let dn = downNode g a;
          scores' = scores[dn := logadd (fadd score (weight g a)) (scores ! dn)];
          degrees' = degrees[dn := degrees ! dn - 1]
      in (scores', degrees',
          if dn < length degrees \<and> degrees' ! dn = 0 then computed @ [dn] else computed)))"

definition forward_measure :: "graph \<times> float list \<times> int list \<times> nat list \<Rightarrow> nat" where
  "forward_measure = (\<lambda>(g, scores, degrees, computed).
     2 * sum_list (map nat degrees) + length computed)"

text \<open>
  Decrementing one entry of the degrees never increases the sum of their positive parts,
  and decreases it when the entry reaches zero.
\<close>

lemma degrees_dec:
  fixes degrees :: "int list"
  shows "sum_list (map nat (degrees[i := degrees ! i - 1])) \<le> sum_list (map nat degrees)"
    and "i < length degrees \<Longrightarrow> degrees ! i - 1 = 0 \<Longrightarrow>
      sum_list (map nat (degrees[i := degrees ! i - 1])) < sum_list (map nat degrees)"
proof -
  have upd: "sum_list (map nat (degrees[i := degrees ! i - 1])) + nat (degrees ! i)
      = sum_list (map nat degrees) + nat (degrees ! i - 1)" if "i < length degrees"
  proof -
    have "map nat degrees ! i \<in> set (map nat degrees)"
      using that by (intro nth_mem) simp
    then have "nat (degrees ! i) \<le> sum_list (map nat degrees)"
      using that by (simp add: member_le_sum_list)
    then show ?thesis
      using that by (simp add: map_update sum_list_update)
  qed
  show "sum_list (map nat (degrees[i := degrees ! i - 1])) \<le> sum_list (map nat degrees)"
  proof (cases "i < length degrees")
    case True
    have "nat (degrees ! i - 1) \<le> nat (degrees ! i)" by simp
    with upd [OF True] show ?thesis by linarith
  next
    case False
    then have "degrees[i := degrees ! i - 1] = degrees"
      by (intro list_update_beyond) simp
    then show ?thesis by simp
  qed
  show "sum_list (map nat (degrees[i := degrees ! i - 1])) < sum_list (map nat degrees)"
    if "i < length degrees" and z: "degrees ! i - 1 = 0"
  proof -
    from z have "nat (degrees ! i) = 1" "nat (degrees ! i - 1) = 0" by simp_all
    with upd [OF that(1)] show ?thesis by simp
  qed
qed

lemma forward_arc_measure:
  "forward_measure (g, forward_arc g score a (scores, degrees, computed))
     \<le> forward_measure (g, scores, degrees, computed)"
proof (cases "downNode g a < length degrees \<and> degrees ! downNode g a - 1 = 0")
  case True
  then show ?thesis
    using degrees_dec(2) [of "downNode g a" degrees]
    by (simp add: forward_arc_def forward_measure_def Let_def)
next
  case False
  then show ?thesis
    using degrees_dec(1) [of degrees "downNode g a"]
    by (auto simp: forward_arc_def forward_measure_def Let_def)
qed

lemma forward_arcs_measure:
  "forward_measure (g, fold (forward_arc g score) as st) \<le> forward_measure (g, st)"
proof (induction as arbitrary: st)
  case Nil
  show ?case by simp
next
  case (Cons a as)
  obtain scores degrees computed where st: "st = (scores, degrees, computed)"
    by (cases st) auto
  have "forward_measure (g, fold (forward_arc g score) as (forward_arc g score a st))
      \<le> forward_measure (g, forward_arc g score a st)"
    by (rule Cons.IH)
  also have "\<dots> \<le> forward_measure (g, st)"
    unfolding st by (rule forward_arc_measure)
  finally show ?case by simp
qed

function forward_loop ::
  "graph \<Rightarrow> float list \<times> int list \<times> nat list \<Rightarrow> float list \<times> int list" where
  "forward_loop g (scores, degrees, []) = (scores, degrees)"
| "forward_loop g (scores, degrees, n # computed) =
     forward_loop g (fold (forward_arc g (scores ! n)) (outArcs g n) (scores, degrees, computed))"
  by pat_completeness auto
termination
proof (relation "measure forward_measure")
  show "wf (measure forward_measure)" by simp
next
  fix g :: graph and scores :: "float list" and degrees :: "int list" and n :: nat
    and computed :: "nat list"
  have "forward_measure (g, fold (forward_arc g (scores ! n)) (outArcs g n)
          (scores, degrees, computed))
      \<le> forward_measure (g, scores, degrees, computed)"
    by (rule forward_arcs_measure)
  also have "\<dots> < forward_measure (g, scores, degrees, n # computed)"
    by (simp add: forward_measure_def)
  finally show "((g, fold (forward_arc g (scores ! n)) (outArcs g n) (scores, degrees, computed)),
      (g, scores, degrees, n # computed)) \<in> measure forward_measure"
    by simp
qed

text \<open>
  The loop over the accept nodes: the exception on a positive residual in-degree, else
  the score is added.
\<close>

fun forward_accept :: "float list \<Rightarrow> int list \<Rightarrow> nat list \<Rightarrow> float \<Rightarrow> error + float" where
  "forward_accept scores degrees [] score = Inr score"
| "forward_accept scores degrees (a # as) score =
     (if degrees ! a > 0 then Inl CycleDetected
      else forward_accept scores degrees as (logadd score (scores ! a)))"

definition forward_scores :: "graph \<Rightarrow> float list" where
  "forward_scores g = fst (forward_loop g (forward_init g))"

definition forward_output :: "graph \<Rightarrow> error + float" where
  "forward_output g =
     (case forward_loop g (forward_init g) of
        (scores, degrees) \<Rightarrow> forward_accept scores degrees (acceptL g) neginf)"

definition forward :: "graph \<Rightarrow> error + graph" where
  "forward g =
     (case forward_output g of Inl e \<Rightarrow> Inl e
      | Inr score \<Rightarrow> Inr (addArc 0 1 0 0 score
                          (addNode False True (addNode True False emptyGraph))))"

section \<open>Backward of forward\<close>

text \<open>
  \<open>forwardGrad\<close> of functions.cpp. The loop over the accept nodes reads \<open>deltas.item()\<close>
  for each of them, which fails when deltas is not an item graph. \<open>nodeGrads\<close> starts
  at zero and so does \<open>arcGrads\<close>, which \<open>std::vector<float>(n)\<close> value-initialises.
\<close>

fun forwardGrad_seed ::
  "graph \<Rightarrow> float \<Rightarrow> graph \<Rightarrow> float list \<Rightarrow> nat list \<Rightarrow> float list \<times> nat list
    \<Rightarrow> error + float list \<times> nat list" where
  "forwardGrad_seed input output deltas scores [] st = Inr st"
| "forwardGrad_seed input output deltas scores (n # ns) (nodeGrads, computed) =
     (case item deltas of Inl e \<Rightarrow> Inl e
      | Inr d \<Rightarrow>
          forwardGrad_seed input output deltas scores ns
            (nodeGrads[n := fmul d (fexp (fsub (scores ! n) output))],
             if numOut input n = 0 then computed @ [n] else computed))"

text \<open>The body of the loop over the arcs entering the popped node \<open>n\<close>.\<close>

definition forwardGrad_arc ::
  "graph \<Rightarrow> float list \<Rightarrow> float \<Rightarrow> float \<Rightarrow> nat
    \<Rightarrow> float list \<times> float list \<times> int list \<times> nat list
    \<Rightarrow> float list \<times> float list \<times> int list \<times> nat list" where
  "forwardGrad_arc input scores score gradn a = (\<lambda>(nodeGrads, arcGrads, degrees, computed).
     (let un = upNode input a;
          arcGrad = fmul gradn (fexp (fsub (fadd (weight input a) (scores ! un)) score));
          arcGrads' = arcGrads[a := arcGrad];
          nodeGrads' = nodeGrads[un := fadd (nodeGrads ! un) arcGrad];
          degrees' = degrees[un := degrees ! un - 1]
      in (nodeGrads', arcGrads', degrees',
          if un < length degrees \<and> degrees' ! un = 0 then computed @ [un] else computed)))"

definition forwardGrad_measure ::
  "graph \<times> float list \<times> float list \<times> float list \<times> int list \<times> nat list \<Rightarrow> nat" where
  "forwardGrad_measure = (\<lambda>(input, scores, nodeGrads, arcGrads, degrees, computed).
     2 * sum_list (map nat degrees) + length computed)"

lemma forwardGrad_arc_measure:
  "forwardGrad_measure (input, scores,
      forwardGrad_arc input scores score gradn a (nodeGrads, arcGrads, degrees, computed))
     \<le> forwardGrad_measure (input, scores, nodeGrads, arcGrads, degrees, computed)"
proof (cases "upNode input a < length degrees \<and> degrees ! upNode input a - 1 = 0")
  case True
  then show ?thesis
    using degrees_dec(2) [of "upNode input a" degrees]
    by (simp add: forwardGrad_arc_def forwardGrad_measure_def Let_def)
next
  case False
  then show ?thesis
    using degrees_dec(1) [of degrees "upNode input a"]
    by (auto simp: forwardGrad_arc_def forwardGrad_measure_def Let_def)
qed

lemma forwardGrad_arcs_measure:
  "forwardGrad_measure (input, scores, fold (forwardGrad_arc input scores score gradn) as st)
     \<le> forwardGrad_measure (input, scores, st)"
proof (induction as arbitrary: st)
  case Nil
  show ?case by simp
next
  case (Cons a as)
  obtain nodeGrads arcGrads degrees computed
    where st: "st = (nodeGrads, arcGrads, degrees, computed)"
    by (cases st) auto
  have "forwardGrad_measure (input, scores,
          fold (forwardGrad_arc input scores score gradn) as
            (forwardGrad_arc input scores score gradn a st))
      \<le> forwardGrad_measure (input, scores, forwardGrad_arc input scores score gradn a st)"
    by (rule Cons.IH)
  also have "\<dots> \<le> forwardGrad_measure (input, scores, st)"
    unfolding st by (rule forwardGrad_arc_measure)
  finally show ?case by simp
qed

function forwardGrad_loop ::
  "graph \<Rightarrow> float list \<Rightarrow> float list \<times> float list \<times> int list \<times> nat list
    \<Rightarrow> float list \<times> float list" where
  "forwardGrad_loop input scores (nodeGrads, arcGrads, degrees, []) = (nodeGrads, arcGrads)"
| "forwardGrad_loop input scores (nodeGrads, arcGrads, degrees, n # computed) =
     forwardGrad_loop input scores
       (fold (forwardGrad_arc input scores (scores ! n) (nodeGrads ! n)) (inArcs input n)
          (nodeGrads, arcGrads, degrees, computed))"
  by pat_completeness auto
termination
proof (relation "measure (\<lambda>(input, scores, st). forwardGrad_measure (input, scores, st))")
  show "wf (measure (\<lambda>(input, scores, st). forwardGrad_measure (input, scores, st)))"
    by simp
next
  fix input :: graph and scores nodeGrads arcGrads :: "float list" and degrees :: "int list"
    and n :: nat and computed :: "nat list"
  have "forwardGrad_measure (input, scores,
          fold (forwardGrad_arc input scores (scores ! n) (nodeGrads ! n)) (inArcs input n)
            (nodeGrads, arcGrads, degrees, computed))
      \<le> forwardGrad_measure (input, scores, nodeGrads, arcGrads, degrees, computed)"
    by (rule forwardGrad_arcs_measure)
  also have "\<dots> < forwardGrad_measure (input, scores, nodeGrads, arcGrads, degrees, n # computed)"
    by (simp add: forwardGrad_measure_def)
  finally show "((input, scores,
        fold (forwardGrad_arc input scores (scores ! n) (nodeGrads ! n)) (inArcs input n)
          (nodeGrads, arcGrads, degrees, computed)),
      (input, scores, nodeGrads, arcGrads, degrees, n # computed))
    \<in> measure (\<lambda>(input, scores, st). forwardGrad_measure (input, scores, st))"
    by simp
qed

text \<open>The node and arc gradients that \<open>forwardGrad\<close> computes before it installs the latter.\<close>

definition forwardGrad_run ::
  "graph \<Rightarrow> float \<Rightarrow> graph \<Rightarrow> float list \<Rightarrow> error + float list \<times> float list" where
  "forwardGrad_run input output deltas scores =
     (let degrees = map (\<lambda>n. int (numOut input n)) [0..<numNodes input];
          nodeGrads = replicate (numNodes input) (Fin 0);
          arcGrads = replicate (numArcs input) (Fin 0)
      in case forwardGrad_seed input output deltas scores (acceptL input) (nodeGrads, []) of
           Inl e \<Rightarrow> Inl e
         | Inr (nodeGrads', computed) \<Rightarrow>
             Inr (forwardGrad_loop input scores (nodeGrads', arcGrads, degrees, computed)))"

definition forwardGrad ::
  "handle \<Rightarrow> float \<Rightarrow> graph \<Rightarrow> float list \<Rightarrow> store \<Rightarrow> error + store" where
  "forwardGrad input output deltas scores \<sigma> =
     (case forwardGrad_run (sgraph (\<sigma> (href input))) output deltas scores of
        Inl e \<Rightarrow> Inl e
      | Inr (nodeGrads, arcGrads) \<Rightarrow> addGrad input arcGrads \<sigma>)"

text \<open>
  The backward closure that \<open>forward\<close> attaches to its result: it has captured the
  scores and the output.
\<close>

definition forward_gradFunc ::
  "float list \<Rightarrow> float \<Rightarrow> handle list \<Rightarrow> graph \<Rightarrow> store \<Rightarrow> error + store" where
  "forward_gradFunc scores output inputs deltas \<sigma> =
     forwardGrad (inputs ! 0) output deltas scores \<sigma>"

section \<open>Paths and cycles\<close>

text \<open>The edge relation of a graph; a graph has a cycle when a node reaches itself.\<close>

definition edges :: "graph \<Rightarrow> (nat \<times> nat) set" where
  "edges g = set (map (\<lambda>a. (up a, down a)) (arcs g))"

definition has_cycle :: "graph \<Rightarrow> bool" where
  "has_cycle g \<longleftrightarrow> (\<exists>n < numNodes g. (n, n) \<in> (edges g)\<^sup>+)"

section \<open>Remove\<close>

text \<open>
  \<open>remove(other, ilabel, olabel)\<close> of functions.cpp. The vector \<open>nodes\<close> holds \<open>-1\<close> or
  the index of the node made for a kept node. The four-argument \<open>addArc\<close> gives the arc
  weight 0 and \<open>addNode(start)\<close> makes a node that is not an accept node. The indices
  \<open>curr\<close> and \<open>nodes[dn]\<close> that the code hands to \<open>makeAccept\<close> and \<open>addArc\<close> are
  not negative there: the queue is filled only from a kept node, and \<open>dn\<close> has the
  incoming arc \<open>a\<close> that does not match.
\<close>

definition label_match :: "graph \<Rightarrow> int \<Rightarrow> int \<Rightarrow> nat \<Rightarrow> bool" where
  "label_match other i j a \<longleftrightarrow> ilabel other a = i \<and> olabel other a = j"

definition remove_nodes :: "graph \<Rightarrow> int \<Rightarrow> int \<Rightarrow> int list \<times> graph" where
  "remove_nodes other i j =
     fold (\<lambda>n (nodeMap, graph).
        if start other n \<or> \<not> list_all (label_match other i j) (inArcs other n)
        then (nodeMap[n := int (numNodes graph)], addNode (start other n) False graph)
        else (nodeMap, graph))
       [0..<numNodes other] (replicate (numNodes other) (- 1), emptyGraph)"

definition remove_arc ::
  "graph \<Rightarrow> int \<Rightarrow> int \<Rightarrow> nat \<Rightarrow> int list \<Rightarrow> nat \<Rightarrow> graph \<times> nat list \<times> nat set
    \<Rightarrow> graph \<times> nat list \<times> nat set" where
  "remove_arc other i j n nodeMap a = (\<lambda>(graph, toExplore, reachable).
     (let dn = downNode other a in
      if label_match other i j a
      then (if dn \<notin> reachable then (graph, toExplore @ [dn], insert dn reachable)
            else (graph, toExplore, reachable))
      else (addArc n (nat (nodeMap ! dn)) (ilabel other a) (olabel other a) (Fin 0) graph,
            toExplore, reachable)))"

definition remove_measure :: "graph \<Rightarrow> graph \<times> nat list \<times> nat set \<Rightarrow> nat" where
  "remove_measure other = (\<lambda>(graph, toExplore, reachable).
     2 * card (set (map down (arcs other)) - reachable) + length toExplore)"

lemma remove_arc_measure:
  assumes "a < numArcs other"
  shows "remove_measure other (remove_arc other i j n nodeMap a (graph, toExplore, reachable))
     \<le> remove_measure other (graph, toExplore, reachable)"
proof (cases "label_match other i j a \<and> downNode other a \<notin> reachable")
  case True
  let ?D = "set (map down (arcs other))"
  from assms have "downNode other a \<in> ?D"
    by (simp add: downNode_def numArcs_def)
  with True have m: "downNode other a \<in> ?D - reachable" by simp
  have "?D - insert (downNode other a) reachable = (?D - reachable) - {downNode other a}"
    by auto
  then have "card (?D - insert (downNode other a) reachable) = card (?D - reachable) - 1"
    using m by simp
  moreover have "card (?D - reachable) > 0"
    using m by (metis card_gt_0_iff empty_iff finite_Diff finite_set)
  ultimately show ?thesis
    using True by (simp add: remove_arc_def remove_measure_def Let_def)
next
  case False
  then show ?thesis
    by (auto simp: remove_arc_def remove_measure_def Let_def)
qed

lemma remove_arcs_measure:
  assumes "list_all (\<lambda>a. a < numArcs other) as"
  shows "remove_measure other (fold (remove_arc other i j n nodeMap) as st)
     \<le> remove_measure other st"
  using assms
proof (induction as arbitrary: st)
  case Nil
  show ?case by simp
next
  case (Cons a as)
  obtain graph toExplore reachable where st: "st = (graph, toExplore, reachable)"
    by (cases st) auto
  from Cons.prems have a: "a < numArcs other" and as: "list_all (\<lambda>a. a < numArcs other) as"
    by simp_all
  have "remove_measure other (fold (remove_arc other i j n nodeMap) as
          (remove_arc other i j n nodeMap a st))
      \<le> remove_measure other (remove_arc other i j n nodeMap a st)"
    by (rule Cons.IH [OF as])
  also have "\<dots> \<le> remove_measure other st"
    unfolding st by (rule remove_arc_measure [OF a])
  finally show ?case by simp
qed

lemma outArcs_bound: "list_all (\<lambda>a. a < numArcs g) (outArcs g n)"
  by (simp add: outArcs_def list_all_iff)

lemma inArcs_bound: "list_all (\<lambda>a. a < numArcs g) (inArcs g n)"
  by (simp add: inArcs_def list_all_iff)

function remove_walk ::
  "graph \<Rightarrow> int \<Rightarrow> int \<Rightarrow> nat \<Rightarrow> int list \<Rightarrow> graph \<times> nat list \<times> nat set \<Rightarrow> graph" where
  "remove_walk other i j n nodeMap (graph, [], reachable) = graph"
| "remove_walk other i j n nodeMap (graph, next # toExplore, reachable) =
     remove_walk other i j n nodeMap
       (fold (remove_arc other i j n nodeMap) (outArcs other next)
          (if accept other next then makeAccept (nat (nodeMap ! n)) graph else graph,
           toExplore, reachable))"
  by pat_completeness auto
termination
proof (relation "measure (\<lambda>(other, i, j, n, nodeMap, st). remove_measure other st)")
  show "wf (measure (\<lambda>(other, i, j, n, nodeMap, st). remove_measure other st))" by simp
next
  fix other :: graph and i j :: int and n :: nat and nodeMap :: "int list" and graph :: graph
    and "next" :: nat and toExplore :: "nat list" and reachable :: "nat set"
  let ?g = "if accept other next then makeAccept (nat (nodeMap ! n)) graph else graph"
  have "remove_measure other (fold (remove_arc other i j n nodeMap) (outArcs other next)
          (?g, toExplore, reachable))
      \<le> remove_measure other (?g, toExplore, reachable)"
    by (rule remove_arcs_measure [OF outArcs_bound])
  also have "\<dots> < remove_measure other (graph, next # toExplore, reachable)"
    by (simp add: remove_measure_def)
  finally show "((other, i, j, n, nodeMap,
        fold (remove_arc other i j n nodeMap) (outArcs other next) (?g, toExplore, reachable)),
      (other, i, j, n, nodeMap, graph, next # toExplore, reachable))
    \<in> measure (\<lambda>(other, i, j, n, nodeMap, st). remove_measure other st)"
    by simp
qed

definition remove :: "graph \<Rightarrow> int \<Rightarrow> int \<Rightarrow> graph" where
  "remove other i j =
     (case remove_nodes other i j of
        (nodeMap, graph) \<Rightarrow>
          fold (\<lambda>n graph'. remove_walk other i j n nodeMap
                  (if nodeMap ! n \<ge> 0 then (graph', [n], {n}) else (graph', [], {})))
            [0..<numNodes other] graph)"

section \<open>Composition\<close>

text \<open>
  \<open>toIndex\<close>, \<open>findReachable\<close> and \<open>compose\<close> of functions.cpp. A state of the
  composition is a pair of nodes; the tables \<open>reachable\<close> and \<open>newNodes\<close> have one
  entry per pair. For well-formed graphs every index computed from the endpoints of arcs
  lies inside the tables. The source reads outside them otherwise; the model reads such a
  pair as not reachable and as already built.
\<close>

definition toIndex :: "nat \<Rightarrow> nat \<Rightarrow> graph \<Rightarrow> nat" where
  "toIndex n1 n2 g = n1 + numNodes g * n2"

text \<open>
  The four lines shared by the three loops of \<open>findReachable\<close>: enqueue the state if it
  was not seen, and mark it.
\<close>

definition reach_mark ::
  "graph \<Rightarrow> nat \<Rightarrow> nat \<Rightarrow> bool list \<times> (nat \<times> nat) list \<Rightarrow> bool list \<times> (nat \<times> nat) list" where
  "reach_mark first un1 un2 = (\<lambda>(reachable, toExplore).
     (let idx = toIndex un1 un2 first in
      (reachable[idx := True],
       if idx < length reachable \<and> \<not> reachable ! idx then toExplore @ [(un1, un2)]
       else toExplore)))"

definition reach_pair ::
  "graph \<Rightarrow> graph \<Rightarrow> nat \<Rightarrow> nat \<Rightarrow> bool list \<times> (nat \<times> nat) list \<times> bool
    \<Rightarrow> bool list \<times> (nat \<times> nat) list \<times> bool" where
  "reach_pair first second i j = (\<lambda>(reachable, toExplore, epsilon_matched).
     if olabel first i \<noteq> ilabel second j then (reachable, toExplore, epsilon_matched)
     else (case reach_mark first (upNode first i) (upNode second j) (reachable, toExplore) of
             (reachable', toExplore') \<Rightarrow>
               (reachable', toExplore', epsilon_matched \<or> olabel first i = epsilon)))"

definition reach_first ::
  "graph \<Rightarrow> graph \<Rightarrow> nat \<Rightarrow> nat \<Rightarrow> bool list \<times> (nat \<times> nat) list
    \<Rightarrow> bool list \<times> (nat \<times> nat) list" where
  "reach_first first second q i st =
     (if olabel first i \<noteq> epsilon then st else reach_mark first (upNode first i) q st)"

definition reach_second ::
  "graph \<Rightarrow> graph \<Rightarrow> nat \<Rightarrow> nat \<Rightarrow> bool list \<times> (nat \<times> nat) list
    \<Rightarrow> bool list \<times> (nat \<times> nat) list" where
  "reach_second first second p j st =
     (if ilabel second j \<noteq> epsilon then st else reach_mark first p (upNode second j) st)"

text \<open>One iteration of the loop of \<open>findReachable\<close>, for the popped state \<open>(p, q)\<close>.\<close>

definition reach_step ::
  "graph \<Rightarrow> graph \<Rightarrow> nat \<times> nat \<Rightarrow> bool list \<times> (nat \<times> nat) list
    \<Rightarrow> bool list \<times> (nat \<times> nat) list" where
  "reach_step first second cur st =
     (case fold (\<lambda>i. fold (reach_pair first second i) (inArcs second (snd cur)))
             (inArcs first (fst cur)) (fst st, snd st, False) of
        (reachable, toExplore, epsilon_matched) \<Rightarrow>
          (let st1 = (if \<not> epsilon_matched
                      then fold (reach_first first second (snd cur)) (inArcs first (fst cur))
                             (reachable, toExplore)
                      else (reachable, toExplore))
           in if \<not> epsilon_matched
              then fold (reach_second first second (fst cur)) (inArcs second (snd cur)) st1
              else st1))"

definition unseen :: "bool list \<Rightarrow> nat" where
  "unseen reachable = sum_list (map (\<lambda>b. if b then 0 else 1) reachable)"

definition reach_measure :: "bool list \<times> (nat \<times> nat) list \<Rightarrow> nat" where
  "reach_measure = (\<lambda>(reachable, toExplore). 2 * unseen reachable + length toExplore)"

lemma fold_measure_le:
  fixes m :: "'s \<Rightarrow> nat"
  assumes "\<And>x s. m (f x s) \<le> m s"
  shows "m (fold f xs s) \<le> m s"
proof (induction xs arbitrary: s)
  case Nil
  show ?case by simp
next
  case (Cons x xs)
  have "m (fold f xs (f x s)) \<le> m (f x s)" by (rule Cons.IH)
  also have "\<dots> \<le> m s" by (rule assms)
  finally show ?case by simp
qed

lemma unseen_mark:
  "unseen (reachable[idx := True]) \<le> unseen reachable"
  "idx < length reachable \<Longrightarrow> \<not> reachable ! idx \<Longrightarrow>
     unseen (reachable[idx := True]) < unseen reachable"
proof -
  have upd: "unseen (reachable[idx := True]) + (if reachable ! idx then 0 else 1)
      = unseen reachable" if "idx < length reachable"
  proof -
    have "map (\<lambda>b. if b then 0 else 1) reachable ! idx
        \<in> set (map (\<lambda>b. if b then 0 else (1::nat)) reachable)"
      using that by (intro nth_mem) simp
    then have "(if reachable ! idx then 0 else (1::nat))
        \<le> sum_list (map (\<lambda>b. if b then 0 else 1) reachable)"
      using that by (simp add: member_le_sum_list)
    then show ?thesis
      using that by (simp add: unseen_def map_update sum_list_update)
  qed
  show "unseen (reachable[idx := True]) \<le> unseen reachable"
  proof (cases "idx < length reachable")
    case True
    from upd [OF True] show ?thesis by linarith
  next
    case False
    then have "reachable[idx := True] = reachable"
      by (intro list_update_beyond) simp
    then show ?thesis by simp
  qed
  show "unseen (reachable[idx := True]) < unseen reachable"
    if "idx < length reachable" and "\<not> reachable ! idx"
    using upd [OF that(1)] that(2) by simp
qed

lemma reach_mark_measure: "reach_measure (reach_mark first un1 un2 st) \<le> reach_measure st"
proof -
  obtain reachable toExplore where st: "st = (reachable, toExplore)" by (cases st)
  show ?thesis
  proof (cases "toIndex un1 un2 first < length reachable
      \<and> \<not> reachable ! toIndex un1 un2 first")
    case True
    then show ?thesis
      using unseen_mark(2) [of "toIndex un1 un2 first" reachable]
      by (simp add: st reach_mark_def reach_measure_def Let_def)
  next
    case False
    then show ?thesis
      using unseen_mark(1) [of reachable "toIndex un1 un2 first"]
      by (auto simp: st reach_mark_def reach_measure_def Let_def)
  qed
qed

lemma reach_pair_measure:
  "reach_measure (fst (reach_pair first second i j st), fst (snd (reach_pair first second i j st)))
     \<le> reach_measure (fst st, fst (snd st))"
proof -
  obtain reachable toExplore em where st: "st = (reachable, toExplore, em)" by (cases st)
  show ?thesis
    using reach_mark_measure [of first "upNode first i" "upNode second j" "(reachable, toExplore)"]
    by (auto simp: st reach_pair_def split: prod.splits)
qed

lemma reach_step_measure: "reach_measure (reach_step first second cur st) \<le> reach_measure st"
proof -
  let ?m3 = "\<lambda>s :: bool list \<times> (nat \<times> nat) list \<times> bool. reach_measure (fst s, fst (snd s))"
  let ?paired = "fold (\<lambda>i. fold (reach_pair first second i) (inArcs second (snd cur)))
             (inArcs first (fst cur)) (fst st, snd st, False)"
  have "?m3 ?paired \<le> ?m3 (fst st, snd st, False)"
    by (rule fold_measure_le, rule fold_measure_le) (rule reach_pair_measure)
  then have p: "reach_measure (fst ?paired, fst (snd ?paired)) \<le> reach_measure st"
    by simp
  have f: "reach_measure (fold (reach_first first second q) as s) \<le> reach_measure s" for q as s
    by (rule fold_measure_le) (simp add: reach_first_def reach_mark_measure)
  have s: "reach_measure (fold (reach_second first second q) as s) \<le> reach_measure s" for q as s
    by (rule fold_measure_le) (simp add: reach_second_def reach_mark_measure)
  obtain reachable toExplore em where pp: "?paired = (reachable, toExplore, em)"
    by (cases ?paired)
  show ?thesis
  proof (cases em)
    case True
    with p pp show ?thesis by (simp add: reach_step_def)
  next
    case False
    have "reach_measure (reach_step first second cur st)
        = reach_measure (fold (reach_second first second (fst cur)) (inArcs second (snd cur))
            (fold (reach_first first second (snd cur)) (inArcs first (fst cur))
               (reachable, toExplore)))"
      using False pp by (simp add: reach_step_def)
    also have "\<dots> \<le> reach_measure (fold (reach_first first second (snd cur))
        (inArcs first (fst cur)) (reachable, toExplore))"
      by (rule s)
    also have "\<dots> \<le> reach_measure (reachable, toExplore)" by (rule f)
    also have "\<dots> \<le> reach_measure st" using p pp by simp
    finally show ?thesis .
  qed
qed

function reach_loop :: "graph \<Rightarrow> graph \<Rightarrow> bool list \<times> (nat \<times> nat) list \<Rightarrow> bool list" where
  "reach_loop first second (reachable, []) = reachable"
| "reach_loop first second (reachable, cur # toExplore) =
     reach_loop first second (reach_step first second cur (reachable, toExplore))"
  by pat_completeness auto
termination
proof (relation "measure (\<lambda>(first, second, st). reach_measure st)")
  show "wf (measure (\<lambda>(first, second, st). reach_measure st))" by simp
next
  fix first second :: graph and reachable :: "bool list" and cur :: "nat \<times> nat"
    and toExplore :: "(nat \<times> nat) list"
  have "reach_measure (reach_step first second cur (reachable, toExplore))
      \<le> reach_measure (reachable, toExplore)"
    by (rule reach_step_measure)
  also have "\<dots> < reach_measure (reachable, cur # toExplore)"
    by (simp add: reach_measure_def)
  finally show "((first, second, reach_step first second cur (reachable, toExplore)),
      (first, second, reachable, cur # toExplore))
    \<in> measure (\<lambda>(first, second, st). reach_measure st)"
    by simp
qed

definition findReachable :: "graph \<Rightarrow> graph \<Rightarrow> bool list" where
  "findReachable first second =
     reach_loop first second
       (fold (\<lambda>f. fold (\<lambda>s (reachable, toExplore).
                 (reachable[toIndex f s first := True], toExplore @ [(f, s)]))
               (acceptL second))
          (acceptL first)
          (replicate (numNodes first * numNodes second) False, []))"


text \<open>
  The lines shared by the three loops of \<open>compose\<close>: skip a destination that cannot
  reach an accept state, build its node if it has none, add the arc from the current node
  and record where the arc came from. \<open>currNode\<close> and \<open>newNodes[idx]\<close> are entries of
  \<open>newNodes\<close> that were set before they are read, so they are node indices.
\<close>

definition compose_node ::
  "graph \<Rightarrow> graph \<Rightarrow> nat \<Rightarrow> nat \<Rightarrow> graph \<times> int list \<times> (nat \<times> nat) list
    \<Rightarrow> graph \<times> int list \<times> (nat \<times> nat) list" where
  "compose_node first second dn1 dn2 = (\<lambda>(ngraph, newNodes, toExplore).
     (let idx = toIndex dn1 dn2 first in
      if idx < length newNodes \<and> newNodes ! idx < 0
      then (addNode (start first dn1 \<and> start second dn2)
              (accept first dn1 \<and> accept second dn2) ngraph,
            newNodes[idx := int (numNodes ngraph)], toExplore @ [(dn1, dn2)])
      else (ngraph, newNodes, toExplore)))"

definition compose_arc ::
  "graph \<Rightarrow> graph \<Rightarrow> bool list \<Rightarrow> nat \<Rightarrow> nat \<Rightarrow> nat \<Rightarrow> int \<Rightarrow> int \<Rightarrow> float \<Rightarrow> int \<times> int
    \<Rightarrow> graph \<times> int list \<times> (nat \<times> nat) list \<times> (int \<times> int) list
    \<Rightarrow> graph \<times> int list \<times> (nat \<times> nat) list \<times> (int \<times> int) list" where
  "compose_arc first second reachable currNode dn1 dn2 i j w prov =
     (\<lambda>(ngraph, newNodes, toExplore, gradInfo).
     (let idx = toIndex dn1 dn2 first in
      if \<not> (idx < length reachable \<and> reachable ! idx)
      then (ngraph, newNodes, toExplore, gradInfo)
      else (case compose_node first second dn1 dn2 (ngraph, newNodes, toExplore) of
              (ngraph', newNodes', toExplore') \<Rightarrow>
                (addArc currNode (nat (newNodes' ! idx)) i j w ngraph', newNodes', toExplore',
                 gradInfo @ [prov]))))"

definition compose_pair ::
  "graph \<Rightarrow> graph \<Rightarrow> bool list \<Rightarrow> nat \<Rightarrow> nat \<Rightarrow> nat
    \<Rightarrow> graph \<times> int list \<times> (nat \<times> nat) list \<times> (int \<times> int) list
    \<Rightarrow> graph \<times> int list \<times> (nat \<times> nat) list \<times> (int \<times> int) list" where
  "compose_pair first second reachable currNode i j st =
     (if olabel first i \<noteq> ilabel second j then st
      else compose_arc first second reachable currNode (downNode first i) (downNode second j)
             (ilabel first i) (olabel second j) (fadd (weight first i) (weight second j))
             (int i, int j) st)"

definition compose_first ::
  "graph \<Rightarrow> graph \<Rightarrow> bool list \<Rightarrow> nat \<Rightarrow> nat \<Rightarrow> nat
    \<Rightarrow> graph \<times> int list \<times> (nat \<times> nat) list \<times> (int \<times> int) list
    \<Rightarrow> graph \<times> int list \<times> (nat \<times> nat) list \<times> (int \<times> int) list" where
  "compose_first first second reachable currNode q i st =
     (if olabel first i \<noteq> epsilon then st
      else compose_arc first second reachable currNode (downNode first i) q
             (ilabel first i) epsilon (weight first i) (int i, - 1) st)"

definition compose_second ::
  "graph \<Rightarrow> graph \<Rightarrow> bool list \<Rightarrow> nat \<Rightarrow> nat \<Rightarrow> nat
    \<Rightarrow> graph \<times> int list \<times> (nat \<times> nat) list \<times> (int \<times> int) list
    \<Rightarrow> graph \<times> int list \<times> (nat \<times> nat) list \<times> (int \<times> int) list" where
  "compose_second first second reachable currNode p j st =
     (if ilabel second j \<noteq> epsilon then st
      else compose_arc first second reachable currNode p (downNode second j)
             epsilon (olabel second j) (weight second j) (- 1, int j) st)"

text \<open>One iteration of the loop of \<open>compose\<close>, for the popped state \<open>(p, q)\<close>.\<close>

definition compose_step ::
  "graph \<Rightarrow> graph \<Rightarrow> bool list \<Rightarrow> nat \<times> nat
    \<Rightarrow> graph \<times> int list \<times> (nat \<times> nat) list \<times> (int \<times> int) list
    \<Rightarrow> graph \<times> int list \<times> (nat \<times> nat) list \<times> (int \<times> int) list" where
  "compose_step first second reachable cur st =
     (let currNode = nat (fst (snd st) ! toIndex (fst cur) (snd cur) first);
          st1 = fold (\<lambda>i. fold (compose_pair first second reachable currNode i)
                             (outArcs second (snd cur)))
                  (outArcs first (fst cur)) st;
          st2 = fold (compose_first first second reachable currNode (snd cur))
                  (outArcs first (fst cur)) st1
      in fold (compose_second first second reachable currNode (fst cur))
           (outArcs second (snd cur)) st2)"

definition unbuilt :: "int list \<Rightarrow> nat" where
  "unbuilt newNodes = sum_list (map (\<lambda>v. if v < 0 then 1 else 0) newNodes)"

definition compose_measure ::
  "graph \<times> int list \<times> (nat \<times> nat) list \<times> (int \<times> int) list \<Rightarrow> nat" where
  "compose_measure = (\<lambda>(ngraph, newNodes, toExplore, gradInfo).
     2 * unbuilt newNodes + length toExplore)"

lemma unbuilt_set:
  assumes "idx < length newNodes" and "newNodes ! idx < 0" and "0 \<le> v"
  shows "unbuilt (newNodes[idx := v]) < unbuilt newNodes"
proof -
  have "map (\<lambda>v. if v < 0 then 1 else 0) newNodes ! idx
      \<in> set (map (\<lambda>v. if v < 0 then 1 else (0::nat)) newNodes)"
    using assms(1) by (intro nth_mem) simp
  then have "(1::nat) \<le> sum_list (map (\<lambda>v. if v < 0 then 1 else 0) newNodes)"
    using assms(1,2) member_le_sum_list by fastforce
  then show ?thesis
    using assms by (simp add: unbuilt_def map_update sum_list_update)
qed

lemma compose_arc_measure:
  "compose_measure (compose_arc first second reachable currNode dn1 dn2 i j w prov st)
     \<le> compose_measure st"
proof -
  obtain ngraph newNodes toExplore gradInfo
    where st: "st = (ngraph, newNodes, toExplore, gradInfo)"
    by (cases st)
  show ?thesis
  proof (cases "toIndex dn1 dn2 first < length newNodes \<and> newNodes ! toIndex dn1 dn2 first < 0")
    case True
    then have "unbuilt (newNodes[toIndex dn1 dn2 first := int (numNodes ngraph)])
        < unbuilt newNodes"
      by (intro unbuilt_set) simp_all
    with True show ?thesis
      by (simp add: st compose_arc_def compose_node_def compose_measure_def Let_def)
  next
    case False
    then show ?thesis
      by (auto simp: st compose_arc_def compose_node_def compose_measure_def Let_def)
  qed
qed

lemma compose_step_measure:
  "compose_measure (compose_step first second reachable cur st) \<le> compose_measure st"
proof -
  have p: "compose_measure (fold (\<lambda>i. fold (compose_pair first second reachable c i) bs) as s)
      \<le> compose_measure s" for c as bs s
    by (rule fold_measure_le, rule fold_measure_le)
      (simp add: compose_pair_def compose_arc_measure)
  have f: "compose_measure (fold (compose_first first second reachable c q) as s)
      \<le> compose_measure s" for c q as s
    by (rule fold_measure_le) (simp add: compose_first_def compose_arc_measure)
  have s: "compose_measure (fold (compose_second first second reachable c q) as s)
      \<le> compose_measure s" for c q as s
    by (rule fold_measure_le) (simp add: compose_second_def compose_arc_measure)
  show ?thesis
    unfolding compose_step_def Let_def
    by (rule order_trans [OF s], rule order_trans [OF f], rule p)
qed

function compose_loop ::
  "graph \<Rightarrow> graph \<Rightarrow> bool list
    \<Rightarrow> graph \<times> int list \<times> (nat \<times> nat) list \<times> (int \<times> int) list
    \<Rightarrow> graph \<times> (int \<times> int) list" where
  "compose_loop first second reachable (ngraph, newNodes, [], gradInfo) = (ngraph, gradInfo)"
| "compose_loop first second reachable (ngraph, newNodes, cur # toExplore, gradInfo) =
     compose_loop first second reachable
       (compose_step first second reachable cur (ngraph, newNodes, toExplore, gradInfo))"
  by pat_completeness auto
termination
proof (relation "measure (\<lambda>(first, second, reachable, st). compose_measure st)")
  show "wf (measure (\<lambda>(first, second, reachable, st). compose_measure st))" by simp
next
  fix first second :: graph and reachable :: "bool list" and ngraph :: graph
    and newNodes :: "int list" and cur :: "nat \<times> nat" and toExplore :: "(nat \<times> nat) list"
    and gradInfo :: "(int \<times> int) list"
  have "compose_measure (compose_step first second reachable cur
          (ngraph, newNodes, toExplore, gradInfo))
      \<le> compose_measure (ngraph, newNodes, toExplore, gradInfo)"
    by (rule compose_step_measure)
  also have "\<dots> < compose_measure (ngraph, newNodes, cur # toExplore, gradInfo)"
    by (simp add: compose_measure_def)
  finally show "((first, second, reachable,
        compose_step first second reachable cur (ngraph, newNodes, toExplore, gradInfo)),
      (first, second, reachable, ngraph, newNodes, cur # toExplore, gradInfo))
    \<in> measure (\<lambda>(first, second, reachable, st). compose_measure st)"
    by simp
qed

text \<open>The loop over the pairs of start nodes.\<close>

definition compose_init ::
  "graph \<Rightarrow> graph \<Rightarrow> bool list \<Rightarrow> graph \<times> int list \<times> (nat \<times> nat) list" where
  "compose_init first second reachable =
     fold (\<lambda>s1. fold (\<lambda>s2 (ngraph, newNodes, toExplore).
               (let idx = toIndex s1 s2 first in
                if idx < length reachable \<and> reachable ! idx
                then (addNode True (accept first s1 \<and> accept second s2) ngraph,
                      newNodes[idx := int (numNodes ngraph)], toExplore @ [(s1, s2)])
                else (ngraph, newNodes, toExplore)))
             (startL second))
       (startL first)
       (emptyGraph, replicate (numNodes first * numNodes second) (- 1), [])"

definition compose_run :: "graph \<Rightarrow> graph \<Rightarrow> graph \<times> (int \<times> int) list" where
  "compose_run first second =
     (let reachable = findReachable first second in
      case compose_init first second reachable of
        (ngraph, newNodes, toExplore) \<Rightarrow>
          compose_loop first second reachable (ngraph, newNodes, toExplore, []))"

definition compose :: "graph \<Rightarrow> graph \<Rightarrow> graph" where
  "compose first second = fst (compose_run first second)"

text \<open>
  A path is a node and the list of the arcs taken from it, each leaving the node the one
  before entered. Its labels are read with the epsilons left out, its weight is the sum
  of the weights of its arcs. An accepting path leads from a start node to an accept
  node.
\<close>

fun is_path :: "graph \<Rightarrow> nat \<Rightarrow> nat list \<Rightarrow> bool" where
  "is_path g n [] = True"
| "is_path g n (a # as) = (a < numArcs g \<and> upNode g a = n \<and> is_path g (downNode g a) as)"

fun path_end :: "graph \<Rightarrow> nat \<Rightarrow> nat list \<Rightarrow> nat" where
  "path_end g n [] = n"
| "path_end g n (a # as) = path_end g (downNode g a) as"

definition accepting_path :: "graph \<Rightarrow> nat \<Rightarrow> nat list \<Rightarrow> bool" where
  "accepting_path g n as \<longleftrightarrow>
     n < numNodes g \<and> start g n \<and> is_path g n as \<and>
     path_end g n as < numNodes g \<and> accept g (path_end g n as)"

definition path_ilabels :: "graph \<Rightarrow> nat list \<Rightarrow> int list" where
  "path_ilabels g as = filter (\<lambda>l. l \<noteq> epsilon) (map (ilabel g) as)"

definition path_olabels :: "graph \<Rightarrow> nat list \<Rightarrow> int list" where
  "path_olabels g as = filter (\<lambda>l. l \<noteq> epsilon) (map (olabel g) as)"

definition path_weight :: "graph \<Rightarrow> nat list \<Rightarrow> float" where
  "path_weight g as = foldr fadd (map (weight g) as) (Fin 0)"

section \<open>The states behind a composed graph\<close>

text \<open>
  A step of the composition from one pair of nodes to another: an arc of each graph with
  the output label of the first equal to the input label of the second, or an arc of the
  first graph alone with output epsilon, or an arc of the second alone with input
  epsilon; with the labels and the weight that \<open>compose\<close> gives the arc it adds.
\<close>

definition cstep :: "graph \<Rightarrow> graph \<Rightarrow> nat \<times> nat \<Rightarrow> int \<times> int \<times> float \<Rightarrow> nat \<times> nat \<Rightarrow> bool" where
  "cstep A B s l s' \<longleftrightarrow>
     (\<exists>i j. i < numArcs A \<and> j < numArcs B \<and> upNode A i = fst s \<and> upNode B j = snd s
        \<and> downNode A i = fst s' \<and> downNode B j = snd s' \<and> olabel A i = ilabel B j
        \<and> l = (ilabel A i, olabel B j, fadd (weight A i) (weight B j)))
     \<or> (\<exists>i. i < numArcs A \<and> upNode A i = fst s \<and> downNode A i = fst s' \<and> snd s' = snd s
        \<and> olabel A i = epsilon \<and> l = (ilabel A i, epsilon, weight A i))
     \<or> (\<exists>j. j < numArcs B \<and> upNode B j = snd s \<and> downNode B j = snd s' \<and> fst s' = fst s
        \<and> ilabel B j = epsilon \<and> l = (epsilon, olabel B j, weight B j))"

text \<open>
  The invariant of the construction, for a map \<open>sm\<close> from the nodes built so far to the
  states they stand for: the flags of a node are those of its state, every arc is a step
  between the states of its endpoints, and \<open>newNodes\<close> and the queue refer to built nodes.
\<close>

definition gok :: "graph \<Rightarrow> graph \<Rightarrow> (nat \<Rightarrow> nat \<times> nat) \<Rightarrow> graph \<Rightarrow> bool" where
  "gok A B sm ng \<longleftrightarrow>
     (\<forall>k < numNodes ng. fst (sm k) < numNodes A \<and> snd (sm k) < numNodes B
        \<and> (start ng k \<longrightarrow> start A (fst (sm k)) \<and> start B (snd (sm k)))
        \<and> (accept ng k \<longrightarrow> accept A (fst (sm k)) \<and> accept B (snd (sm k))))
     \<and> (\<forall>a \<in> set (arcs ng). up a < numNodes ng \<and> down a < numNodes ng
        \<and> cstep A B (sm (up a)) (il a, ol a, wt a) (sm (down a)))"

definition cinv0 ::
  "graph \<Rightarrow> graph \<Rightarrow> (nat \<Rightarrow> nat \<times> nat)
    \<Rightarrow> graph \<times> int list \<times> (nat \<times> nat) list \<times> (int \<times> int) list \<Rightarrow> bool" where
  "cinv0 A B sm = (\<lambda>(ng, nn, te, gi).
     length nn = numNodes A * numNodes B
     \<and> (\<forall>p q. p < numNodes A \<longrightarrow> q < numNodes B \<longrightarrow> 0 \<le> nn ! toIndex p q A \<longrightarrow>
          nat (nn ! toIndex p q A) < numNodes ng \<and> sm (nat (nn ! toIndex p q A)) = (p, q))
     \<and> gok A B sm ng
     \<and> (\<forall>s \<in> set te. fst s < numNodes A \<and> snd s < numNodes B
          \<and> 0 \<le> nn ! toIndex (fst s) (snd s) A))"

definition cinvAt ::
  "graph \<Rightarrow> graph \<Rightarrow> nat \<Rightarrow> nat \<Rightarrow> nat
    \<Rightarrow> graph \<times> int list \<times> (nat \<times> nat) list \<times> (int \<times> int) list \<Rightarrow> bool" where
  "cinvAt A B p q c st \<longleftrightarrow>
     (\<exists>sm. cinv0 A B sm st) \<and> p < numNodes A \<and> q < numNodes B
     \<and> fst (snd st) ! toIndex p q A = int c"


text \<open>
  How the labels of a path of each input relate to those of a path of the composed
  graph in C1.
\<close>

definition path_match ::
  "graph \<Rightarrow> graph \<Rightarrow> graph \<Rightarrow> nat list \<Rightarrow> nat list \<Rightarrow> nat list \<Rightarrow> bool" where
  "path_match A B C pA pB p \<longleftrightarrow>
     path_ilabels A pA = path_ilabels C p \<and> path_olabels A pA = path_ilabels B pB
     \<and> path_olabels B pB = path_olabels C p"

section \<open>The invariant of the loop of forward\<close>

text \<open>
  \<open>Q\<close> is the set of the nodes popped so far and \<open>D\<close> the set of the arcs relaxed so far.
  The residual in-degree of a node counts its incoming arcs that are not relaxed, the
  queue holds each node once and none that was popped, and a node is popped or queued
  exactly when its residual in-degree is 0 and, if it has no incoming arc, it is a start
  node.
\<close>

definition finv ::
  "graph \<Rightarrow> nat set \<Rightarrow> nat set \<Rightarrow> float list \<times> int list \<times> nat list \<Rightarrow> bool" where
  "finv g Q D = (\<lambda>(scores, degrees, computed).
     length scores = numNodes g \<and> length degrees = numNodes g
     \<and> (\<forall>a \<in> D. a < numArcs g \<and> upNode g a \<in> Q)
     \<and> (\<forall>m < numNodes g.
          degrees ! m = int (numIn g m) - int (card {a \<in> D. downNode g a = m}))
     \<and> distinct computed \<and> set computed \<inter> Q = {}
     \<and> (\<forall>m \<in> Q \<union> set computed. m < numNodes g)
     \<and> (\<forall>m < numNodes g. m \<in> Q \<union> set computed \<longleftrightarrow>
          degrees ! m = 0 \<and> (numIn g m = 0 \<longrightarrow> m \<in> set (startL g))))"

text \<open>A set of nodes each of which has an incoming arc from the set.\<close>

definition predclosed :: "graph \<Rightarrow> nat set \<Rightarrow> bool" where
  "predclosed g T \<longleftrightarrow>
     (\<forall>m \<in> T. \<exists>a. a < numArcs g \<and> downNode g a = m \<and> upNode g a \<in> T)"

definition finvT ::
  "graph \<Rightarrow> nat set \<Rightarrow> nat set \<Rightarrow> nat set \<Rightarrow> float list \<times> int list \<times> nat list \<Rightarrow> bool" where
  "finvT g T Q D st \<longleftrightarrow> finv g Q D st \<and> T \<inter> (Q \<union> set (snd (snd st))) = {}"

text \<open>The arcs leaving a set of nodes; between two iterations these are the relaxed arcs.\<close>

definition outOf :: "graph \<Rightarrow> nat set \<Rightarrow> nat set" where
  "outOf g Q = {a. a < numArcs g \<and> upNode g a \<in> Q}"

definition linv ::
  "graph \<Rightarrow> nat set \<Rightarrow> nat set \<Rightarrow> float list \<times> int list \<times> nat list \<Rightarrow> bool" where
  "linv g T Q st \<longleftrightarrow> finvT g T Q (outOf g Q) st"

text \<open>The nodes on a cycle or behind one.\<close>

definition behindCycle :: "graph \<Rightarrow> nat set" where
  "behindCycle g = {n. \<exists>c. (c, c) \<in> (edges g)\<^sup>+ \<and> (c, n) \<in> (edges g)\<^sup>*}"

section \<open>The recurrence of the scores\<close>

text \<open>
  What section 4.8 of the specification says of the scores, as a property of a table
  \<open>sc\<close> of one score per node, for an addition \<open>add\<close> and a log-add \<open>ladd\<close>: the score
  of a node is the \<open>ladd\<close>, over its incoming arcs taken in some order, of the score of
  the source of the arc plus the weight of the arc, joined to 0 at a start node and to
  negative infinity at any other. It is asked of the nodes from which an accept node can
  be reached. The result of \<open>forward\<close> is the \<open>ladd\<close> of the scores of the accept nodes,
  in the order of their list.
\<close>

definition upstream :: "graph \<Rightarrow> nat \<Rightarrow> bool" where
  "upstream g n \<longleftrightarrow> (\<exists>a \<in> set (acceptL g). (n, a) \<in> (edges g)\<^sup>*)"

definition joined ::
  "(float \<Rightarrow> float \<Rightarrow> float) \<Rightarrow> (float \<Rightarrow> float \<Rightarrow> float) \<Rightarrow> graph \<Rightarrow> float list \<Rightarrow> nat
    \<Rightarrow> nat list \<Rightarrow> float" where
  "joined add ladd g sc n as =
     fold (\<lambda>a acc. ladd (add (sc ! upNode g a) (weight g a)) acc) as
       (if start g n then Fin 0 else NInf)"

definition solves ::
  "(float \<Rightarrow> float \<Rightarrow> float) \<Rightarrow> (float \<Rightarrow> float \<Rightarrow> float) \<Rightarrow> graph \<Rightarrow> float list \<Rightarrow> bool"
  where
  "solves add ladd g sc \<longleftrightarrow>
     length sc = numNodes g
     \<and> (\<forall>n < numNodes g. upstream g n \<longrightarrow>
          (\<exists>as. distinct as \<and> set as = set (inArcs g n)
             \<and> sc ! n = joined add ladd g sc n as))"

definition total :: "(float \<Rightarrow> float \<Rightarrow> float) \<Rightarrow> graph \<Rightarrow> float list \<Rightarrow> float" where
  "total ladd g sc = fold (\<lambda>a acc. ladd acc (sc ! a)) (acceptL g) NInf"



text \<open>
  Every node without an incoming arc from which an accept node can be reached is a
  start node.
\<close>

definition sources_start :: "graph \<Rightarrow> bool" where
  "sources_start g \<longleftrightarrow>
     (\<forall>n < numNodes g. numIn g n = 0 \<and> (\<exists>a \<in> set (acceptL g). (n, a) \<in> (edges g)\<^sup>*)
        \<longrightarrow> n \<in> set (startL g))"

section \<open>Scores as sums over paths\<close>

text \<open>
  The operations of the recurrence without rounding: the sum of two extended reals, and
  the logarithm of the sum of their exponentials.
\<close>

fun xadd :: "float \<Rightarrow> float \<Rightarrow> float" where
  "xadd NaN _ = NaN"
| "xadd _ NaN = NaN"
| "xadd (Fin a) (Fin b) = Fin (a + b)"
| "xadd (Fin a) NInf = NInf"
| "xadd (Fin a) PInf = PInf"
| "xadd NInf (Fin b) = NInf"
| "xadd PInf (Fin b) = PInf"
| "xadd NInf NInf = NInf"
| "xadd PInf PInf = PInf"
| "xadd NInf PInf = NaN"
| "xadd PInf NInf = NaN"

fun xlogadd :: "float \<Rightarrow> float \<Rightarrow> float" where
  "xlogadd NaN _ = NaN"
| "xlogadd _ NaN = NaN"
| "xlogadd NInf b = b"
| "xlogadd a NInf = a"
| "xlogadd (Fin a) (Fin b) = Fin (ln (exp a + exp b))"
| "xlogadd _ _ = PInf"

text \<open>
  The value of a finite float, the sum of the arc weights along a path as a real number,
  and the log-sum-exp of these sums over a set of paths: negative infinity for no path.
\<close>

fun fval :: "float \<Rightarrow> real" where
  "fval (Fin r) = r"
| "fval _ = 0"

definition path_sum :: "graph \<Rightarrow> nat list \<Rightarrow> real" where
  "path_sum g p = sum_list (map (\<lambda>a. fval (weight g a)) p)"

definition lse :: "graph \<Rightarrow> (nat \<times> nat list) set \<Rightarrow> float" where
  "lse g S = (if S = {} then NInf else Fin (ln (\<Sum>x \<in> S. exp (path_sum g (snd x)))))"

definition pathsTo :: "graph \<Rightarrow> nat \<Rightarrow> (nat \<times> nat list) set" where
  "pathsTo g m = {(s, p). s < numNodes g \<and> start g s \<and> is_path g s p \<and> path_end g s p = m}"

definition ext :: "nat \<Rightarrow> (nat \<times> nat list) set \<Rightarrow> (nat \<times> nat list) set" where
  "ext a S = (\<lambda>x. (fst x, snd x @ [a])) ` S"


definition acceptingPaths :: "graph \<Rightarrow> (nat \<times> nat list) set" where
  "acceptingPaths g = {(s, p). accepting_path g s p}"

definition finite_weights :: "graph \<Rightarrow> bool" where
  "finite_weights g \<longleftrightarrow> list_all (\<lambda>a. wt a = Fin (fval (wt a))) (arcs g)"

section \<open>Example graphs\<close>

text \<open>Two stores: one holding the items 2.0 and 3.0, one holding a single arc.\<close>

definition store23 :: store where
  "store23 = (\<lambda>k. \<lparr>sgraph = (if k = 0 then itemGraph (Fin 2) else itemGraph (Fin 3)),
                   sgrad = None\<rparr>)"

definition chain2 :: graph where
  "chain2 = \<lparr>nodes = [(True, False), (False, True)],
             arcs = [\<lparr>up = 0, down = 1, il = 1, ol = 2, wt = Fin 5\<rparr>],
             startL = [0], acceptL = [1]\<rparr>"

definition storeC :: store where
  "storeC = (\<lambda>k. \<lparr>sgraph = chain2, sgrad = None\<rparr>)"

text \<open>
  A start and accept node beside a node with a self-loop; an arc into a node that is not
  an accept node, in a graph without accept nodes; an accept node followed by a node that
  is neither an accept node nor has outgoing arcs.
\<close>

definition loopGraph :: graph where
  "loopGraph = \<lparr>nodes = [(True, True), (False, False)],
             arcs = [\<lparr>up = 1, down = 1, il = 1, ol = 1, wt = Fin 0\<rparr>],
             startL = [0], acceptL = [0]\<rparr>"

definition noAccept :: graph where
  "noAccept = \<lparr>nodes = [(True, False), (False, False)],
             arcs = [\<lparr>up = 0, down = 1, il = 1, ol = 1, wt = Fin 2\<rparr>],
             startL = [0], acceptL = []\<rparr>"

definition deadEnd :: graph where
  "deadEnd = \<lparr>nodes = [(True, False), (False, True), (False, False)],
             arcs = [\<lparr>up = 0, down = 1, il = 1, ol = 1, wt = Fin 0\<rparr>,
                     \<lparr>up = 1, down = 2, il = 2, ol = 2, wt = Fin 0\<rparr>],
             startL = [0], acceptL = [1]\<rparr>"

definition storeD :: store where
  "storeD = (\<lambda>k. \<lparr>sgraph = deadEnd, sgrad = None\<rparr>)"

text \<open>A graph whose node 0 is dropped by \<open>remove\<close>: not a start node, no incoming arc.\<close>

definition dropFirst :: graph where
  "dropFirst = \<lparr>nodes = [(False, False), (True, False), (False, True)],
             arcs = [\<lparr>up = 1, down = 2, il = 1, ol = 1, wt = Fin 3\<rparr>],
             startL = [1], acceptL = [2]\<rparr>"

text \<open>
  Transducers with epsilons: \<open>epsA\<close> has one arc with output epsilon; \<open>epsB\<close> one arc with
  input epsilon into its only start node, which is an accept node; \<open>epsB2\<close> one arc with
  input epsilon between two accept nodes, the first a start node.
\<close>

definition epsA :: graph where
  "epsA = \<lparr>nodes = [(True, False), (False, True)],
           arcs = [\<lparr>up = 0, down = 1, il = 1, ol = 0, wt = Fin 1\<rparr>],
           startL = [0], acceptL = [1]\<rparr>"

definition epsB :: graph where
  "epsB = \<lparr>nodes = [(False, False), (True, True)],
           arcs = [\<lparr>up = 0, down = 1, il = 0, ol = 2, wt = Fin 1\<rparr>],
           startL = [1], acceptL = [1]\<rparr>"

definition epsB2 :: graph where
  "epsB2 = \<lparr>nodes = [(True, True), (False, True)],
           arcs = [\<lparr>up = 0, down = 1, il = 0, ol = 3, wt = Fin 2\<rparr>],
           startL = [0], acceptL = [0, 1]\<rparr>"

text \<open>An accept node with a self-loop.\<close>

definition loopAccept :: graph where
  "loopAccept = \<lparr>nodes = [(True, False), (False, True)],
             arcs = [\<lparr>up = 0, down = 1, il = 1, ol = 1, wt = Fin 0\<rparr>,
                     \<lparr>up = 1, down = 1, il = 2, ol = 2, wt = Fin 0\<rparr>],
             startL = [0], acceptL = [1]\<rparr>"



text \<open>A chain of two arcs of weight \<open>FLT_MAX\<close>.\<close>

definition big2 :: graph where
  "big2 = \<lparr>nodes = [(True, False), (False, False), (False, True)],
             arcs = [\<lparr>up = 0, down = 1, il = 1, ol = 1, wt = Fin flt_max\<rparr>,
                     \<lparr>up = 1, down = 2, il = 2, ol = 2, wt = Fin flt_max\<rparr>],
             startL = [0], acceptL = [2]\<rparr>"

section \<open>Properties of the rounding\<close>

lemma rne_of_int: "rne (of_int n) = n"
  by (simp add: rne_def)

lemma rne_minus: "rne (- q) = - rne q"
proof (cases "q = of_int \<lfloor>q\<rfloor>")
  case True
  then obtain n where "q = of_int n" by blast
  then have "- q = of_int (- n)" by simp
  then show ?thesis unfolding \<open>q = of_int n\<close> by (simp only: rne_of_int)
next
  case False
  then have f: "\<lfloor>- q\<rfloor> = - \<lfloor>q\<rfloor> - 1"
    by (metis ceiling_altdef ceiling_def minus_minus add_diff_cancel uminus_add_conv_diff
        minus_diff_eq diff_minus_eq_add)
  show ?thesis
    unfolding rne_def Let_def f by (auto simp: algebra_simps)
qed

lemma expo32_minus: "expo32 (- x) = expo32 x"
  by (simp add: expo32_def)

text \<open>Rounding is symmetric about zero.\<close>

lemma round32_minus: "round32 (- x) = fneg (round32 x)"
proof -
  define u where "u = (2::real) powi (expo32 x - 23)"
  define y where "y = of_int (rne (x / u)) * u"
  have m: "of_int (rne (- x / u)) * u = - y"
    using rne_minus [of "x / u"] by (simp add: y_def)
  have r: "round32 x = (if 2 ^ 128 \<le> \<bar>y\<bar> then (if 0 < x then PInf else NInf) else Fin y)"
    by (simp add: round32_def Let_def u_def y_def)
  have r': "round32 (- x)
      = (if 2 ^ 128 \<le> \<bar>y\<bar> then (if x < 0 then PInf else NInf) else Fin (- y))"
    using m by (simp add: round32_def Let_def expo32_minus u_def [symmetric])
  have z: "y = 0" if "x = 0" using that by (simp add: y_def rne_def)
  show ?thesis
  proof (cases "2 ^ 128 \<le> \<bar>y\<bar>")
    case True
    with z have "x \<noteq> 0" by auto
    with True show ?thesis by (simp add: r r')
  next
    case False
    then show ?thesis by (simp add: r r')
  qed
qed

lemma floor_log2:
  assumes "2 powi e \<le> x" and "x < 2 powi (e + 1)"
  shows "\<lfloor>log 2 x\<rfloor> = e"
proof -
  have "0 < (2::real) powi e" by simp
  with assms(1) have p: "0 < x" by linarith
  have 1: "(2::real) powr (of_int e) \<le> x"
    using assms(1) by (simp add: powr_real_of_int')
  have "(2::real) powr (of_int (e + 1)) = 2 powi (e + 1)"
    by (simp add: powr_real_of_int' del: of_int_add)
  then have "x < 2 powr (of_int (e + 1))"
    using assms(2) by simp
  then have 2: "x < 2 powr (of_int e + 1)" by simp
  from 1 2 show ?thesis
    using p by (simp add: floor_log_eq_powr_iff)
qed

text \<open>
  How a real of binary exponent \<open>e\<close> is rounded: to a multiple of \<open>2^(e - 23)\<close>, or of
  \<open>2^(-149)\<close> below the normal range.
\<close>

lemma round32_at:
  assumes "2 powi e \<le> \<bar>x\<bar>" and "\<bar>x\<bar> < 2 powi (e + 1)"
  shows "round32 x =
     (let u = 2 powi (max e (- 126) - 23); y = of_int (rne (x / u)) * u in
      if 2 ^ 128 \<le> \<bar>y\<bar> then (if 0 < x then PInf else NInf) else Fin y)"
proof -
  have "expo32 x = max e (- 126)" using floor_log2 [OF assms] by (simp add: expo32_def)
  then show ?thesis by (simp add: round32_def)
qed

text \<open>
  A real with a 24-bit significand at its own exponent, below the overflow threshold, is
  a float: rounding leaves it as it is.
\<close>

lemma round32_grid:
  assumes e: "2 powi e \<le> \<bar>x\<bar>" "\<bar>x\<bar> < 2 powi (e + 1)" and r: "- 126 \<le> e"
    and k: "x = of_int k * 2 powi (e - 23)" and b: "\<bar>x\<bar> < 2 ^ 128"
  shows "round32 x = Fin x"
proof -
  have "expo32 x = e" using floor_log2 [OF e] r by (simp add: expo32_def)
  moreover have "x / 2 powi (e - 23) = of_int k" using k by simp
  ultimately show ?thesis
    using b k by (simp add: round32_def Let_def rne_of_int)
qed

text \<open>The integers up to \<open>2^24\<close> in absolute value are floats.\<close>

lemma round32_of_int:
  assumes "\<bar>n\<bar> \<le> 2 ^ 24"
  shows "round32 (of_int n) = Fin (of_int n)"
proof (cases "n = 0")
  case True
  then show ?thesis by (simp add: round32_def rne_def)
next
  case False
  define x :: real where "x = of_int n"
  define e where "e = \<lfloor>log 2 \<bar>x\<bar>\<rfloor>"
  have x1: "1 \<le> \<bar>x\<bar>" using False by (simp add: x_def)
  have x2: "\<bar>x\<bar> \<le> 2 ^ 24"
  proof -
    have "\<bar>x\<bar> = of_int \<bar>n\<bar>" by (simp add: x_def)
    also have "\<dots> \<le> of_int (2 ^ 24)" using assms by (simp only: of_int_le_iff)
    finally show ?thesis by simp
  qed
  have l0: "0 \<le> log 2 \<bar>x\<bar>" using x1 by simp
  have l24: "log 2 \<bar>x\<bar> \<le> log 2 (2 ^ 24)"
    using x1 x2 by (subst log_le_cancel_iff) simp_all
  have c: "log 2 ((2::real) ^ 24) = 24" by (subst log_pow_cancel) simp_all
  from l24 have l1: "log 2 \<bar>x\<bar> \<le> 24" unfolding c .
  have e0: "0 \<le> e" and e1: "e \<le> 24"
    using l0 l1 by (simp_all add: e_def floor_le_iff le_floor_iff)
  have b: "2 powr (of_int e) \<le> \<bar>x\<bar>"
    using x1 floor_log_eq_powr_iff [of "\<bar>x\<bar>" 2 e] by (simp add: e_def)
  have ex: "expo32 x = e" using e0 by (simp add: expo32_def e_def)
  have "\<exists>k. x / 2 powi (e - 23) = of_int k"
  proof (cases "e \<le> 23")
    case True
    then have "(2::real) powi (e - 23) = 1 / 2 ^ nat (23 - e)"
      by (simp add: power_int_def field_simps)
    then have "x / 2 powi (e - 23) = of_int (n * 2 ^ nat (23 - e))"
      by (simp add: x_def)
    then show ?thesis by blast
  next
    case False
    with e1 have e: "e = 24" by simp
    from b have "2 ^ 24 \<le> \<bar>x\<bar>" by (simp add: e powr_numeral [symmetric] del: powr_numeral)
    with x2 have "\<bar>x\<bar> = 2 ^ 24" by simp
    then have "x = 2 ^ 24 \<or> x = - (2 ^ 24)" by (simp add: abs_if split: if_splits)
    then have "x / 2 powi (e - 23) = of_int (2 ^ 23)
        \<or> x / 2 powi (e - 23) = of_int (- (2 ^ 23))"
      by (auto simp: e)
    then show ?thesis by blast
  qed
  then obtain k where k: "x / 2 powi (e - 23) = of_int k" by blast
  then have y: "of_int (rne (x / 2 powi (e - 23))) * 2 powi (e - 23) = x"
    by (simp add: rne_of_int) (metis k nonzero_divide_eq_eq power_int_eq_0_iff zero_neq_numeral)
  have "\<bar>x\<bar> < 2 ^ 128" using x2 by simp
  then show ?thesis
    using y by (simp add: round32_def Let_def ex x_def [symmetric])
qed

lemma round32_small:
  "round32 0 = Fin 0" "round32 1 = Fin 1" "round32 (- 1) = Fin (- 1)"
  "numeral k \<le> (2::int) ^ 24 \<Longrightarrow> round32 (numeral k) = Fin (numeral k)"
  "numeral k \<le> (2::int) ^ 24 \<Longrightarrow> round32 (- numeral k) = Fin (- numeral k)"
  using round32_of_int [of 0] round32_of_int [of 1] round32_of_int [of "- 1"]
    round32_of_int [of "numeral k"] round32_of_int [of "- numeral k"]
  by simp_all

text \<open>
  Two sums that are not floats: \<open>2^24 + 1\<close> lies halfway between two floats and is
  rounded to the even one, and \<open>FLT_MAX + FLT_MAX\<close> overflows.
\<close>

lemma fsub_rounds: "fsub (Fin (2 ^ 24)) (Fin (- 1)) = Fin (2 ^ 24)"
proof -
  have "expo32 (2 ^ 24 + 1) = 24"
    unfolding expo32_def using floor_log2 [of 24 "\<bar>2 ^ 24 + 1\<bar>"] by simp
  moreover have "rne ((2 ^ 24 + 1) / 2) = 2 ^ 23"
    by (simp add: rne_def Let_def)
  ultimately have "round32 (2 ^ 24 + 1) = Fin (2 ^ 24)" by (simp add: round32_def Let_def)
  then show ?thesis by (simp add: fsub_def)
qed

lemma fsub_overflows: "fsub (Fin flt_max) (Fin (- flt_max)) = PInf"
proof -
  have x: "flt_max + flt_max = (2 ^ 24 - 1) * 2 ^ 105" by (simp add: flt_max_def)
  have "expo32 (flt_max + flt_max) = 128"
    unfolding expo32_def x using floor_log2 [of 128 "\<bar>(2 ^ 24 - 1) * 2 ^ 105\<bar>"] by simp
  moreover have "rne ((2 ^ 24 - 1) * 2 ^ 105 / 2 ^ 105) = 2 ^ 24 - 1"
    using rne_of_int [of "2 ^ 24 - 1"] by simp
  ultimately have "round32 (flt_max + flt_max) = PInf" by (simp add: round32_def Let_def x)
  then show ?thesis by (simp add: fsub_def)
qed

lemma fadd_commute: "fadd a b = fadd b a"
  by (cases a; cases b) (simp_all add: add.commute)

section \<open>Properties of the item arithmetic\<close>

lemma item_itemGraph: "item (itemGraph w) = Inr w"
  by (simp add: item_def itemGraph_def addArc_def addNode_def emptyGraph_def numNodes_def
      weight_def)

lemma item_Inr_iff: "item g = Inr w \<longleftrightarrow> g = itemGraph w"
proof
  assume h: "item g = Inr w"
  then have n: "nodes g = [(True, False), (False, True)]" and s: "startL g = [0]"
    and a: "acceptL g = [1]"
    and c: "(case arcs g of [a] \<Rightarrow> up a = 0 \<and> down a = 1 \<and> il a = 0 \<and> ol a = 0 | _ \<Rightarrow> False)"
    and w: "weight g 0 = w"
    by (auto simp: item_def split: if_splits)
  from c obtain x where x: "arcs g = [x]" "up x = 0" "down x = 1" "il x = 0" "ol x = 0"
    by (auto split: list.splits)
  from w x have "wt x = w" by (simp add: weight_def)
  with x have "x = \<lparr>up = 0, down = 1, il = 0, ol = 0, wt = w\<rparr>" by simp
  with x n s a show "g = itemGraph w"
    by (simp add: itemGraph_def addArc_def addNode_def emptyGraph_def numNodes_def)
next
  assume "g = itemGraph w"
  then show "item g = Inr w" by (simp add: item_itemGraph)
qed

lemma numArcs_itemGraph: "numArcs (itemGraph w) = 1"
  by (simp add: itemGraph_def addArc_def addNode_def emptyGraph_def numArcs_def)

lemma arcs_itemGraph: "map wt (arcs (itemGraph w)) = [w]"
  by (simp add: itemGraph_def addArc_def addNode_def emptyGraph_def)

text \<open>
  C8. For item graphs \<open>a\<close> and \<open>b\<close> with values \<open>x\<close> and \<open>y\<close>, \<open>subtract(a, b)\<close> is the
  item graph of the float \<open>x - y\<close>. Its backward closure, given an item deltas of value
  \<open>d\<close> and handles to the states that hold \<open>a\<close> and \<open>b\<close>, succeeds and adds \<open>[d]\<close> to
  the accumulator of the first state and then \<open>[-d]\<close> to the accumulator of the second
  (the same state twice when the two handles share it), leaving every other state as it
  was. A handle whose \<open>calcGrad\<close> is false takes no gradient: its state is left as it
  was, too.
\<close>

theorem subtract_item:
  assumes "item a = Inr x" and "item b = Inr y" and "item deltas = Inr d"
    and "sgraph (\<sigma> (href ha)) = a" and "sgraph (\<sigma> (href hb)) = b"
  shows "subtract a b = Inr (itemGraph (fsub x y))
    \<and> item (itemGraph (fsub x y)) = Inr (fsub x y)
    \<and> subtract_gradFunc [ha, hb] deltas \<sigma> =
        Inr ((if calcGrad hb then accumAt (href hb) [fneg d] else id)
              ((if calcGrad ha then accumAt (href ha) [d] else id) \<sigma>))"
proof -
  from assms(1,2,3) have g: "a = itemGraph x" "b = itemGraph y" "deltas = itemGraph d"
    by (simp_all add: item_Inr_iff)
  have v: "subtract a b = Inr (itemGraph (fsub x y))"
    using assms(1,2) by (simp add: subtract_def itemGraph_def)
  have n: "negate (itemGraph d) = Inr (itemGraph (fneg d))"
    using item_itemGraph [of d] by (simp add: negate_def itemGraph_def)
  let ?\<sigma>1 = "(if calcGrad ha then accumAt (href ha) [d] else id) \<sigma>"
  have 1: "addGradG ha deltas \<sigma> = Inr ?\<sigma>1"
    using assms(4) g by (simp add: addGradG_def addGrad_def arcs_itemGraph numArcs_itemGraph)
  have k: "sgraph (?\<sigma>1 (href hb)) = itemGraph y"
    using assms(5) g by (auto simp: accumAt_def)
  have 2: "addGradG hb (itemGraph (fneg d)) ?\<sigma>1
      = Inr ((if calcGrad hb then accumAt (href hb) [fneg d] else id) ?\<sigma>1)"
    using k by (simp add: addGradG_def addGrad_def arcs_itemGraph numArcs_itemGraph)
  have b: "subtract_gradFunc [ha, hb] deltas \<sigma> =
        Inr ((if calcGrad hb then accumAt (href hb) [fneg d] else id) ?\<sigma>1)"
    unfolding subtract_gradFunc_def using 1 2 n g(3) by simp
  from v b show ?thesis by (simp add: item_itemGraph)
qed

text \<open>
  The scenario of the specification: \<open>a = item(2.0)\<close>, \<open>b = item(3.0)\<close>, seed \<open>1.0\<close>,
  no gradient accumulated before; the value is \<open>-1.0\<close> and the gradients are \<open>[1.0]\<close>
  and \<open>[-1.0]\<close>. With \<open>calcGrad\<close> false on \<open>b\<close> its state keeps no gradient.
\<close>

theorem subtract_item_witness:
  "item (itemGraph (Fin 2)) = Inr (Fin 2) \<and> item (itemGraph (Fin 3)) = Inr (Fin 3)
   \<and> item (itemGraph (Fin 1)) = Inr (Fin 1)
   \<and> subtract (itemGraph (Fin 2)) (itemGraph (Fin 3)) = Inr (itemGraph (Fin (- 1)))
   \<and> (case subtract_gradFunc [\<lparr>href = 0, calcGrad = True\<rparr>, \<lparr>href = 1, calcGrad = True\<rparr>]
              (itemGraph (Fin 1)) store23 of
        Inl e \<Rightarrow> False
      | Inr \<sigma> \<Rightarrow> sgrad (\<sigma> 0) = Some [Fin 1] \<and> sgrad (\<sigma> 1) = Some [Fin (- 1)])
   \<and> (case subtract_gradFunc [\<lparr>href = 0, calcGrad = True\<rparr>, \<lparr>href = 1, calcGrad = False\<rparr>]
              (itemGraph (Fin 1)) store23 of
        Inl e \<Rightarrow> False
      | Inr \<sigma> \<Rightarrow> sgrad (\<sigma> 0) = Some [Fin 1] \<and> sgrad (\<sigma> 1) = None)"
  using subtract_item [of "itemGraph (Fin 2)" "Fin 2" "itemGraph (Fin 3)" "Fin 3"
      "itemGraph (Fin 1)" "Fin 1" store23 "\<lparr>href = 0, calcGrad = True\<rparr>"
      "\<lparr>href = 1, calcGrad = True\<rparr>"]
    subtract_item [of "itemGraph (Fin 2)" "Fin 2" "itemGraph (Fin 3)" "Fin 3"
      "itemGraph (Fin 1)" "Fin 1" store23 "\<lparr>href = 0, calcGrad = True\<rparr>"
      "\<lparr>href = 1, calcGrad = False\<rparr>"]
  by (simp add: item_itemGraph store23_def fsub_def accum_def accumAt_def round32_small)

section \<open>Properties of logadd\<close>

lemma fabs_fneg: "fabs (fneg x) = fabs x"
  by (cases x) simp_all

lemma fabs_fsub_commute: "fabs (fsub (Fin a) (Fin b)) = fabs (fsub (Fin b) (Fin a))"
proof -
  have "round32 (b - a) = fneg (round32 (a - b))"
    using round32_minus [of "a - b"] by simp
  then show ?thesis by (simp add: fsub_def fabs_fneg)
qed

lemma fmax_commute_fin: "fmax (Fin a) (Fin b) = fmax (Fin b) (Fin a)"
  by (simp add: fmax_def)

lemma logadd_comm_fin: "logadd (Fin a) (Fin b) = logadd (Fin b) (Fin a)"
  by (simp only: logadd_def fabs_fsub_commute fmax_commute_fin neginf_def feq.simps
      float.simps if_False)

lemma logadd_neginf: "logadd NInf x = x" "logadd x NInf = x"
  by (cases x; simp add: logadd_def neginf_def)+

text \<open>
  C9. Negative infinity is a left and a right identity of \<open>logadd\<close>, on every value
  including the infinities and NaN, and \<open>logadd\<close> is commutative.
\<close>

theorem logadd_identity_comm:
  "logadd neginf x = x \<and> logadd x neginf = x \<and> logadd x y = logadd y x"
proof (intro conjI)
  show "logadd neginf x = x" by (simp add: logadd_def neginf_def)
  show "logadd x neginf = x" by (cases x) (simp_all add: logadd_def neginf_def)
  show "logadd x y = logadd y x"
  proof (cases x; cases y)
    fix a b assume "x = Fin a" "y = Fin b"
    then show ?thesis by (simp add: logadd_comm_fin)
  qed (simp_all add: logadd_def neginf_def fmax_def fsub_def)
qed


section \<open>Properties of closure\<close>

lemma fold_addNode_nodes:
  "nodes (fold (\<lambda>n c. addNode (s n) (f n) c) ns c0) = nodes c0 @ map (\<lambda>n. (s n, f n)) ns"
  by (induction ns arbitrary: c0) (simp_all add: addNode_def)

lemma fold_addNode_arcs: "arcs (fold (\<lambda>n c. addNode (s n) (f n) c) ns c0) = arcs c0"
  by (induction ns arbitrary: c0) (simp_all add: addNode_def)

lemma fold_addNode_startL:
  "startL (fold (\<lambda>n c. addNode False (f n) c) ns c0) = startL c0"
  by (induction ns arbitrary: c0) (simp_all add: addNode_def)

lemma fold_addArc_arcs:
  "arcs (fold (\<lambda>a c. addArc (u a) (d a) (i a) (j a) (w a) c) as c0) =
     arcs c0 @ map (\<lambda>a. \<lparr>up = u a, down = d a, il = i a, ol = j a, wt = w a\<rparr>) as"
  by (induction as arbitrary: c0) (simp_all add: addArc_def)

lemma fold_addArc_nodes:
  "nodes (fold (\<lambda>a c. addArc (u a) (d a) (i a) (j a) (w a) c) as c0) = nodes c0"
  by (induction as arbitrary: c0) (simp_all add: addArc_def)

lemma fold_addArc_startL:
  "startL (fold (\<lambda>a c. addArc (u a) (d a) (i a) (j a) (w a) c) as c0) = startL c0"
  by (induction as arbitrary: c0) (simp_all add: addArc_def)

lemma fold_addArc_acceptL:
  "acceptL (fold (\<lambda>a c. addArc (u a) (d a) (i a) (j a) (w a) c) as c0) = acceptL c0"
  by (induction as arbitrary: c0) (simp_all add: addArc_def)

lemma addArcL_eps: "addArcL u d epsilon c = c\<lparr>arcs := arcs c @ [epsArc u d]\<rparr>"
  by (simp add: addArcL_def addArc_def epsArc_def epsilon_def)

lemma closure_inner:
  "fold (\<lambda>a. addArcL (Suc a) (Suc s) epsilon) as c =
     c\<lparr>arcs := arcs c @ map (\<lambda>a. epsArc (Suc a) (Suc s)) as\<rparr>"
  by (induction as arbitrary: c) (simp_all add: addArcL_eps)

lemma closure_outer:
  "fold (\<lambda>s c. fold (\<lambda>a. addArcL (Suc a) (Suc s) epsilon) as (addArcL 0 (Suc s) epsilon c))
      ss c0 =
     c0\<lparr>arcs := arcs c0 @
        concat (map (\<lambda>s. epsArc 0 (Suc s) # map (\<lambda>a. epsArc (Suc a) (Suc s)) as) ss)\<rparr>"
  by (induction ss arbitrary: c0) (simp_all add: closure_inner addArcL_eps)

lemma closed0: "addNode True True emptyGraph =
    \<lparr>nodes = [(True, True)], arcs = [], startL = [0], acceptL = [0]\<rparr>"
  by (simp add: addNode_def emptyGraph_def numNodes_def)

lemma closure_arcs: "arcs (closure g) = map shiftArc (arcs g) @ closureEps g"
proof -
  have "map (\<lambda>a. \<lparr>up = upNode g a + 1, down = downNode g a + 1, il = ilabel g a,
                   ol = olabel g a, wt = weight g a\<rparr>) [0..<numArcs g] = map shiftArc (arcs g)"
    by (rule nth_equalityI)
      (simp_all add: numArcs_def shiftArc_def upNode_def downNode_def ilabel_def olabel_def
        weight_def)
  then show ?thesis
    by (simp add: closure_def Let_def closure_outer fold_addArc_arcs fold_addNode_arcs
        closureEps_def closed0)
qed

lemma closure_nodes:
  "nodes (closure g) = (True, True) # map (\<lambda>n. (False, accept g n)) [0..<numNodes g]"
  by (simp add: closure_def Let_def closure_outer fold_addArc_nodes fold_addNode_nodes
      closed0)

lemma closure_startL: "startL (closure g) = [0]"
  by (simp add: closure_def Let_def closure_outer fold_addArc_startL fold_addNode_startL
      closed0)

lemma readWeights_ok:
  "list_all (\<lambda>i. i < numArcs d) is \<Longrightarrow> readWeights d is = Inr (map (weight d) is)"
  by (induction "is") (simp_all add: weightAt_def)

lemma readWeights_take:
  assumes "n \<le> numArcs d"
  shows "readWeights d [0..<n] = Inr (take n (map wt (arcs d)))"
proof -
  have "list_all (\<lambda>i. i < numArcs d) [0..<n]"
    using assms by (simp add: list_all_iff)
  then have "readWeights d [0..<n] = Inr (map (weight d) [0..<n])"
    by (rule readWeights_ok)
  moreover have "map (weight d) [0..<n] = take n (map wt (arcs d))"
    using assms by (intro nth_equalityI) (simp_all add: numArcs_def weight_def)
  ultimately show ?thesis by simp
qed

text \<open>
  C7. In \<open>closure(g)\<close> node 0 is a start and an accept node; node \<open>k + 1\<close> is not a start
  node and is an accept node exactly when node \<open>k\<close> of \<open>g\<close> is; the first \<open>|A(g)|\<close>
  arcs are the arcs of \<open>g\<close> in their order, both endpoints shifted by one, labels and
  weights unchanged; for every node \<open>s\<close> of the list \<open>start()\<close> of \<open>g\<close> there is an epsilon
  arc of weight 0 from 0 to \<open>s + 1\<close>, and for every node \<open>t\<close> of the list \<open>accept()\<close>
  one from \<open>t + 1\<close> to \<open>s + 1\<close>; these arcs come after the copied ones. The backward
  closure, given deltas of the shape of \<open>closure(g)\<close> and a handle with \<open>calcGrad\<close> set to
  the state holding \<open>g\<close>, adds to its accumulator the weights of the first \<open>|A(g)|\<close>
  arcs of deltas; without \<open>calcGrad\<close> it leaves the store as it is.
\<close>

theorem closure_structure:
  "numNodes (closure g) = numNodes g + 1
   \<and> start (closure g) 0 \<and> accept (closure g) 0
   \<and> (\<forall>k < numNodes g. \<not> start (closure g) (k + 1)
        \<and> accept (closure g) (k + 1) = accept g k)
   \<and> numArcs g \<le> numArcs (closure g)
   \<and> (\<forall>a < numArcs g. upNode (closure g) a = upNode g a + 1
        \<and> downNode (closure g) a = downNode g a + 1
        \<and> ilabel (closure g) a = ilabel g a \<and> olabel (closure g) a = olabel g a
        \<and> weight (closure g) a = weight g a)
   \<and> (\<forall>s \<in> set (startL g).
        epsArc 0 (s + 1) \<in> set (drop (numArcs g) (arcs (closure g)))
        \<and> (\<forall>t \<in> set (acceptL g).
             epsArc (t + 1) (s + 1) \<in> set (drop (numArcs g) (arcs (closure g)))))
   \<and> (sgraph (\<sigma> (href h)) = g \<and> numArcs deltas = numArcs (closure g) \<longrightarrow>
        closure_gradFunc [h] deltas \<sigma> =
          (if calcGrad h
           then Inr (accumAt (href h) (take (numArcs g) (map wt (arcs deltas))) \<sigma>)
           else Inr \<sigma>))"
proof (intro conjI)
  show "numNodes (closure g) = numNodes g + 1"
    by (simp add: numNodes_def closure_nodes)
  show "start (closure g) 0" "accept (closure g) 0"
    by (simp_all add: start_def accept_def closure_nodes)
  show "\<forall>k < numNodes g. \<not> start (closure g) (k + 1)
        \<and> accept (closure g) (k + 1) = accept g k"
    by (simp add: start_def accept_def closure_nodes)
  show le: "numArcs g \<le> numArcs (closure g)"
    by (simp add: numArcs_def closure_arcs)
  show "\<forall>a < numArcs g. upNode (closure g) a = upNode g a + 1
        \<and> downNode (closure g) a = downNode g a + 1
        \<and> ilabel (closure g) a = ilabel g a \<and> olabel (closure g) a = olabel g a
        \<and> weight (closure g) a = weight g a"
    by (simp add: numArcs_def closure_arcs nth_append upNode_def downNode_def ilabel_def
        olabel_def weight_def shiftArc_def)
  have d: "drop (numArcs g) (arcs (closure g)) = closureEps g"
    by (simp add: numArcs_def closure_arcs)
  show "\<forall>s \<in> set (startL g).
        epsArc 0 (s + 1) \<in> set (drop (numArcs g) (arcs (closure g)))
        \<and> (\<forall>t \<in> set (acceptL g).
             epsArc (t + 1) (s + 1) \<in> set (drop (numArcs g) (arcs (closure g))))"
    unfolding d by (auto simp: closureEps_def)
  show "sgraph (\<sigma> (href h)) = g \<and> numArcs deltas = numArcs (closure g) \<longrightarrow>
        closure_gradFunc [h] deltas \<sigma> =
          (if calcGrad h
           then Inr (accumAt (href h) (take (numArcs g) (map wt (arcs deltas))) \<sigma>)
           else Inr \<sigma>)"
  proof
    assume a: "sgraph (\<sigma> (href h)) = g \<and> numArcs deltas = numArcs (closure g)"
    with le have "numArcs g \<le> numArcs deltas" by simp
    then have r: "readWeights deltas [0..<numArcs g] = Inr (take (numArcs g) (map wt (arcs deltas)))"
      by (rule readWeights_take)
    from \<open>numArcs g \<le> numArcs deltas\<close>
    have l: "length (take (numArcs g) (map wt (arcs deltas))) = numArcs g"
      by (simp add: numArcs_def)
    show "closure_gradFunc [h] deltas \<sigma> =
          (if calcGrad h
           then Inr (accumAt (href h) (take (numArcs g) (map wt (arcs deltas))) \<sigma>)
           else Inr \<sigma>)"
      using a r l by (simp add: closure_gradFunc_def addGrad_def)
  qed
qed

lemma chain2_facts:
  "numNodes chain2 = 2" "numArcs chain2 = 1" "startL chain2 = [0]" "acceptL chain2 = [1]"
  by (simp_all add: chain2_def numNodes_def numArcs_def)

theorem closure_structure_witness:
  "(0::nat) < numNodes chain2 \<and> \<not> start (closure chain2) 1
   \<and> accept (closure chain2) 1 = accept chain2 0
   \<and> (0::nat) < numArcs chain2 \<and> upNode (closure chain2) 0 = 1
   \<and> downNode (closure chain2) 0 = 2 \<and> weight (closure chain2) 0 = Fin 5
   \<and> 0 \<in> set (startL chain2) \<and> 1 \<in> set (acceptL chain2)
   \<and> epsArc 0 1 \<in> set (drop 1 (arcs (closure chain2)))
   \<and> epsArc 2 1 \<in> set (drop 1 (arcs (closure chain2)))
   \<and> sgraph (storeC 0) = chain2
   \<and> closure_gradFunc [\<lparr>href = 0, calcGrad = True\<rparr>] (closure chain2) storeC =
        Inr (accumAt 0 [Fin 5] storeC)"
proof -
  note t = closure_structure [of chain2 storeC "\<lparr>href = 0, calcGrad = True\<rparr>" "closure chain2"]
  have n: "(0::nat) < numNodes chain2" and a: "(0::nat) < numArcs chain2"
    and s: "0 \<in> set (startL chain2)" and c: "1 \<in> set (acceptL chain2)"
    and g: "sgraph (storeC 0) = chain2"
    by (simp_all add: chain2_facts storeC_def)
  from t n have "\<not> start (closure chain2) (0 + 1)
      \<and> accept (closure chain2) (0 + 1) = accept chain2 0"
    by blast
  then have 1: "\<not> start (closure chain2) 1 \<and> accept (closure chain2) 1 = accept chain2 0"
    by simp
  have 6: "upNode chain2 0 = 0" "downNode chain2 0 = 1" "weight chain2 0 = Fin 5"
    by (simp_all add: chain2_def upNode_def downNode_def weight_def)
  from t a have "upNode (closure chain2) 0 = upNode chain2 0 + 1
      \<and> downNode (closure chain2) 0 = downNode chain2 0 + 1
      \<and> weight (closure chain2) 0 = weight chain2 0"
    by blast
  then have 2: "upNode (closure chain2) 0 = 1 \<and> downNode (closure chain2) 0 = 2
      \<and> weight (closure chain2) 0 = Fin 5"
    by (simp add: 6)
  from t s c have "epsArc 0 (0 + 1) \<in> set (drop (numArcs chain2) (arcs (closure chain2)))
      \<and> epsArc (1 + 1) (0 + 1) \<in> set (drop (numArcs chain2) (arcs (closure chain2)))"
    by blast
  then have 3: "epsArc 0 1 \<in> set (drop 1 (arcs (closure chain2)))
      \<and> epsArc 2 1 \<in> set (drop 1 (arcs (closure chain2)))"
    by (simp add: chain2_facts numeral_2_eq_2)
  have 5: "take (numArcs chain2) (map wt (arcs (closure chain2))) = [Fin 5]"
    by (simp add: chain2_facts closure_arcs) (simp add: chain2_def shiftArc_def)
  from t g have "closure_gradFunc [\<lparr>href = 0, calcGrad = True\<rparr>] (closure chain2) storeC =
      Inr (accumAt 0 (take (numArcs chain2) (map wt (arcs (closure chain2)))) storeC)"
    by simp
  then have 4: "closure_gradFunc [\<lparr>href = 0, calcGrad = True\<rparr>] (closure chain2) storeC =
      Inr (accumAt 0 [Fin 5] storeC)"
    by (simp only: 5)
  from n a s c g 1 2 3 4 show ?thesis
    by blast
qed

section \<open>Properties of forward\<close>

lemmas graph_eval = numNodes_def numArcs_def numIn_def numOut_def inArcs_def outArcs_def
  upNode_def downNode_def weight_def start_def accept_def ilabel_def olabel_def

text \<open>
  C10. Without accept nodes \<open>forward\<close> raises nothing and returns the item graph of
  negative infinity. This holds for every graph whose list of accept nodes is empty, the
  acyclic ones among them: the loop over the accept nodes, which holds the only
  \<open>throw\<close>, does not run.
\<close>

theorem forward_no_accept: "acceptL g = [] \<Longrightarrow> forward g = Inr (itemGraph neginf)"
  by (simp add: forward_def forward_output_def itemGraph_def split: prod.splits)

theorem forward_no_accept_witness:
  "acceptL noAccept = [] \<and> \<not> has_cycle noAccept \<and> forward noAccept = Inr (itemGraph neginf)"
proof -
  have a: "acceptL noAccept = []" by (simp add: noAccept_def)
  have e: "edges noAccept = {(0, 1)}" by (simp add: edges_def noAccept_def)
  have "(edges noAccept)\<^sup>+ = {(0, 1)}"
    unfolding e by (auto elim: trancl.cases)
  then have c: "\<not> has_cycle noAccept" by (simp add: has_cycle_def)
  from a c forward_no_accept [OF a] show ?thesis by simp
qed

text \<open>
  C5, as stated, fails: the graph \<open>loopGraph\<close> is well formed and has a cycle, the
  self-loop at node 1, and \<open>forward\<close> returns the item graph of 0 for it. The residual
  in-degree is tested at the accept nodes only, and the accept node 0 is not behind the
  cycle.
\<close>

theorem forward_cycle_counterexample:
  "wf_graph loopGraph \<and> has_cycle loopGraph \<and> forward loopGraph = Inr (itemGraph (Fin 0))"
proof (intro conjI)
  show "wf_graph loopGraph"
    by (simp add: wf_graph_def loopGraph_def graph_eval)
  have "(1, 1) \<in> edges loopGraph" by (simp add: edges_def loopGraph_def)
  then have "(1, 1) \<in> (edges loopGraph)\<^sup>+" by (rule r_into_trancl)
  moreover have "1 < numNodes loopGraph" by (simp add: loopGraph_def numNodes_def)
  ultimately show "has_cycle loopGraph" unfolding has_cycle_def by blast
  show "forward loopGraph = Inr (itemGraph (Fin 0))"
    by (simp add: forward_def forward_output_def forward_init_def loopGraph_def graph_eval
        neginf_def logadd_def itemGraph_def)
qed

section \<open>Properties of the backward of forward\<close>

text \<open>
  C4 at the graph \<open>deadEnd\<close>, with arcs \<open>0 \<rightarrow> 1\<close> and \<open>1 \<rightarrow> 2\<close> of weight 0, start node
  0 and accept node 1. \<open>forward\<close> returns 0 with the scores \<open>[0, 0, 0]\<close>. With deltas of
  value 1 the accept node 1 is seeded with the gradient 1, but it has an outgoing arc and
  is not enqueued, and node 2 is not an accept node and is not enqueued either: the walk
  never starts, and both arc gradients stay 0. The formula of the claim gives
  \<open>1 \<cdot> exp(0 + 0 - 0) = 1\<close> for the arc \<open>0 \<rightarrow> 1\<close>.
\<close>

theorem forwardGrad_deadEnd:
  "wf_graph deadEnd \<and> forward deadEnd = Inr (itemGraph (Fin 0))
   \<and> forward_scores deadEnd = [Fin 0, Fin 0, Fin 0]
   \<and> forwardGrad_run deadEnd (Fin 0) (itemGraph (Fin 1)) (forward_scores deadEnd) =
      Inr ([Fin 0, Fin 1, Fin 0], [Fin 0, Fin 0])
   \<and> fmul (Fin 1) (fexp (fsub (fadd (weight deadEnd 0)
        (forward_scores deadEnd ! upNode deadEnd 0)) (forward_scores deadEnd ! downNode deadEnd 0)))
      = Fin 1
   \<and> forward_gradFunc (forward_scores deadEnd) (Fin 0) [\<lparr>href = 0, calcGrad = True\<rparr>]
        (itemGraph (Fin 1)) storeD = Inr (accumAt 0 [Fin 0, Fin 0] storeD)"
proof -
  have s: "forward_scores deadEnd = [Fin 0, Fin 0, Fin 0]"
    and o: "forward_output deadEnd = Inr (Fin 0)"
    by (simp_all add: forward_scores_def forward_output_def forward_init_def deadEnd_def
        graph_eval neginf_def logadd_def forward_arc_def round32_small)
  have w: "wf_graph deadEnd"
    by (simp add: wf_graph_def deadEnd_def graph_eval)
  have f: "forward deadEnd = Inr (itemGraph (Fin 0))"
    by (simp add: forward_def o itemGraph_def)
  have r: "forwardGrad_run deadEnd (Fin 0) (itemGraph (Fin 1)) [Fin 0, Fin 0, Fin 0] =
      Inr ([Fin 0, Fin 1, Fin 0], [Fin 0, Fin 0])"
    by (simp add: forwardGrad_run_def item_itemGraph deadEnd_def graph_eval fsub_def
        round32_small)
  have c: "fmul (Fin 1) (fexp (fsub (fadd (weight deadEnd 0)
        ([Fin 0, Fin 0, Fin 0] ! upNode deadEnd 0)) ([Fin 0, Fin 0, Fin 0] ! downNode deadEnd 0)))
      = Fin 1"
    by (simp add: deadEnd_def graph_eval fsub_def round32_small)
  have g: "forward_gradFunc [Fin 0, Fin 0, Fin 0] (Fin 0) [\<lparr>href = 0, calcGrad = True\<rparr>]
        (itemGraph (Fin 1)) storeD = Inr (accumAt 0 [Fin 0, Fin 0] storeD)"
  proof -
    have sg: "sgraph (storeD 0) = deadEnd" by (simp add: storeD_def)
    have na: "numArcs deadEnd = 2" by (simp add: deadEnd_def numArcs_def)
    show ?thesis
      by (simp add: forward_gradFunc_def forwardGrad_def sg r addGrad_def na)
  qed
  from w f r c g show ?thesis unfolding s by blast
qed

section \<open>Properties of remove\<close>

text \<open>
  C6 at the graph \<open>dropFirst\<close>, removing epsilon: node 0 is dropped, so the kept nodes 1
  and 2 get the result nodes \<open>map[1] = 0\<close> and \<open>map[2] = 1\<close>. The arc \<open>1 \<rightarrow> 2\<close> does not
  match and is emitted during the walk from \<open>n = 1\<close>; the claim gives it source
  \<open>map[1] = 0\<close> and destination \<open>map[2] = 1\<close>. The code passes \<open>n\<close> itself as the source
  and the arc of the result goes from 1 to 1.
\<close>

theorem remove_dropFirst:
  "wf_graph dropFirst
   \<and> remove_nodes dropFirst epsilon epsilon =
       ([- 1, 0, 1], \<lparr>nodes = [(True, False), (False, False)], arcs = [],
                       startL = [0], acceptL = []\<rparr>)
   \<and> remove dropFirst epsilon epsilon =
       \<lparr>nodes = [(True, False), (False, True)],
        arcs = [\<lparr>up = 1, down = 1, il = 1, ol = 1, wt = Fin 0\<rparr>],
        startL = [0], acceptL = [1]\<rparr>"
proof -
  have w: "wf_graph dropFirst"
    by (simp add: wf_graph_def dropFirst_def graph_eval)
  have n: "remove_nodes dropFirst epsilon epsilon =
       ([- 1, 0, 1], \<lparr>nodes = [(True, False), (False, False)], arcs = [],
                       startL = [0], acceptL = []\<rparr>)"
    by (simp add: remove_nodes_def dropFirst_def graph_eval label_match_def epsilon_def
        addNode_def emptyGraph_def)
  have upt3: "[0..<3] = [0, 1, 2]" by code_simp
  have k: "numNodes dropFirst = 3" by (simp add: dropFirst_def numNodes_def)
  have r: "remove dropFirst epsilon epsilon =
       \<lparr>nodes = [(True, False), (False, True)],
        arcs = [\<lparr>up = 1, down = 1, il = 1, ol = 1, wt = Fin 0\<rparr>],
        startL = [0], acceptL = [1]\<rparr>"
    unfolding remove_def n k upt3
    by (simp add: dropFirst_def graph_eval label_match_def epsilon_def remove_arc_def
        makeAccept_def addArc_def)
  from w n r show ?thesis by blast
qed

section \<open>Properties of compose\<close>

lemma upt2: "[0..<2] = [0, 1]" by code_simp

lemma findReachable_epsA_epsB: "findReachable epsA epsB = [True, False, False, True]"
  by (simp add: findReachable_def epsA_def epsB_def graph_eval toIndex_def reach_step_def
      reach_pair_def reach_mark_def reach_first_def reach_second_def epsilon_def upt2)

lemma compose_epsA_epsB: "compose epsA epsB = emptyGraph"
  by (simp add: compose_def compose_run_def findReachable_epsA_epsB compose_init_def)
    (simp add: epsA_def epsB_def graph_eval toIndex_def)

lemma findReachable_epsA_epsB2: "findReachable epsA epsB2 = [True, True, False, True]"
  by (simp add: findReachable_def epsA_def epsB2_def graph_eval toIndex_def reach_step_def
      reach_pair_def reach_mark_def reach_first_def reach_second_def epsilon_def upt2)

lemma compose_epsA_epsB2: "compose epsA epsB2 =
   \<lparr>nodes = [(True, False), (False, True), (False, True)],
    arcs = [\<lparr>up = 0, down = 1, il = 1, ol = 3, wt = Fin 3\<rparr>,
            \<lparr>up = 0, down = 2, il = 1, ol = 0, wt = Fin 1\<rparr>,
            \<lparr>up = 2, down = 1, il = 0, ol = 3, wt = Fin 2\<rparr>],
    startL = [0], acceptL = [1, 2]\<rparr>"
  by (simp add: compose_def compose_run_def findReachable_epsA_epsB2 compose_init_def)
    (simp add: epsA_def epsB2_def graph_eval toIndex_def compose_step_def compose_pair_def
      compose_first_def compose_second_def compose_arc_def compose_node_def epsilon_def upt2
      addNode_def addArc_def emptyGraph_def round32_small)


lemmas path_eval = accepting_path_def path_ilabels_def path_olabels_def path_weight_def

text \<open>
  C2 at \<open>compose(epsA, epsB2)\<close>. In the state \<open>(0, 0)\<close> the arc of \<open>epsA\<close>, with
  output epsilon, matches the arc of \<open>epsB2\<close>, with input epsilon. The pair of these two
  one-arc paths is met twice in the composed graph: by the paired arc 0, and by arc 1
  (the arc of \<open>epsA\<close> alone) followed by arc 2 (the arc of \<open>epsB2\<close> alone). Both are
  accepting paths with input labels \<open>[1]\<close>, output labels \<open>[3]\<close> and weight 3. The loop of
  \<open>compose\<close> has no \<open>epsilon_matched\<close> guard before its single-sided loops; that of
  \<open>findReachable\<close> has.
\<close>

theorem compose_epsilon_duplicate:
  "wf_graph epsA \<and> wf_graph epsB2
   \<and> accepting_path epsA 0 [0] \<and> accepting_path epsB2 0 [0]
   \<and> accepting_path (compose epsA epsB2) 0 [0]
   \<and> accepting_path (compose epsA epsB2) 0 [1, 2]
   \<and> path_ilabels (compose epsA epsB2) [0] = [1]
   \<and> path_ilabels (compose epsA epsB2) [1, 2] = [1]
   \<and> path_olabels (compose epsA epsB2) [0] = [3]
   \<and> path_olabels (compose epsA epsB2) [1, 2] = [3]
   \<and> path_weight (compose epsA epsB2) [0] = Fin 3
   \<and> path_weight (compose epsA epsB2) [1, 2] = Fin 3"
proof -
  have w: "wf_graph epsA" "wf_graph epsB2"
    by (simp_all add: wf_graph_def epsA_def epsB2_def graph_eval upt2)
  have p: "accepting_path epsA 0 [0]" "accepting_path epsB2 0 [0]"
    by (simp_all add: path_eval epsA_def epsB2_def graph_eval)
  have c: "accepting_path (compose epsA epsB2) 0 [0]"
    "accepting_path (compose epsA epsB2) 0 [1, 2]"
    "path_ilabels (compose epsA epsB2) [0] = [1]"
    "path_ilabels (compose epsA epsB2) [1, 2] = [1]"
    "path_olabels (compose epsA epsB2) [0] = [3]"
    "path_olabels (compose epsA epsB2) [1, 2] = [3]"
    "path_weight (compose epsA epsB2) [0] = Fin 3"
    "path_weight (compose epsA epsB2) [1, 2] = Fin 3"
    unfolding compose_epsA_epsB2
    by (simp_all add: path_eval graph_eval epsilon_def round32_small)
  from w p c show ?thesis by blast
qed

text \<open>
  C1 at \<open>compose(epsA, epsB)\<close>. The arc of \<open>epsA\<close> is an accepting path with input
  labels \<open>[1]\<close> and no output label, and the empty path at node 1 of \<open>epsB\<close> is an
  accepting path with no label: a pair of paths with matching intermediate labels, for
  which the claim promises a path of the composed graph. The state \<open>(0, 1)\<close> is a pair
  of start nodes and steps to the pair of accept nodes \<open>(1, 1)\<close> by the arc of \<open>epsA\<close>
  alone, the first-graph epsilon step of \<open>compose\<close>. \<open>findReachable\<close>, which is to find
  every state that can reach an accepting state, marks \<open>(1, 1)\<close> (index 3) and not
  \<open>(0, 1)\<close> (index 2): at \<open>(1, 1)\<close> the arc of \<open>epsA\<close> and the arc of \<open>epsB\<close> match on
  epsilon, and the guard \<open>epsilon_matched\<close> skips the single-sided steps. So \<open>compose\<close>
  builds no start node and returns the empty graph, which has no path.
\<close>

theorem compose_drops_pair:
  "wf_graph epsA \<and> wf_graph epsB
   \<and> accepting_path epsA 0 [0] \<and> accepting_path epsB 1 []
   \<and> path_ilabels epsA [0] = [1] \<and> path_olabels epsA [0] = path_ilabels epsB []
   \<and> path_olabels epsB [] = []
   \<and> start epsA 0 \<and> start epsB 1 \<and> accept epsA 1 \<and> accept epsB 1
   \<and> cstep epsA epsB (0, 1) (1, epsilon, Fin 1) (1, 1)
   \<and> toIndex 0 1 epsA = 2 \<and> toIndex 1 1 epsA = 3
   \<and> findReachable epsA epsB = [True, False, False, True]
   \<and> compose epsA epsB = emptyGraph \<and> numNodes (compose epsA epsB) = 0"
proof -
  have w: "wf_graph epsA" "wf_graph epsB"
    by (simp_all add: wf_graph_def epsA_def epsB_def graph_eval upt2)
  have p: "accepting_path epsA 0 [0]" "accepting_path epsB 1 []"
    "path_ilabels epsA [0] = [1]" "path_olabels epsA [0] = path_ilabels epsB []"
    "path_olabels epsB [] = []"
    by (simp_all add: path_eval epsA_def epsB_def graph_eval epsilon_def)
  have f: "start epsA 0" "start epsB 1" "accept epsA 1" "accept epsB 1"
    by (simp_all add: epsA_def epsB_def graph_eval)
  have c: "cstep epsA epsB (0, 1) (1, epsilon, Fin 1) (1, 1)"
    by (simp add: cstep_def epsA_def epsB_def graph_eval epsilon_def)
  have t: "toIndex 0 1 epsA = 2" "toIndex 1 1 epsA = 3"
    by (simp_all add: toIndex_def epsA_def numNodes_def)
  have n: "numNodes (compose epsA epsB) = 0"
    unfolding compose_epsA_epsB by (simp add: emptyGraph_def numNodes_def)
  from w p f c t findReachable_epsA_epsB compose_epsA_epsB n show ?thesis by blast
qed

lemma toIndex_inj:
  assumes "p < numNodes A" and "p' < numNodes A" and "toIndex p q A = toIndex p' q' A"
  shows "p = p' \<and> q = q'"
proof -
  from assms(3) have e: "p + numNodes A * q = p' + numNodes A * q'"
    by (simp add: toIndex_def)
  then have "(p + numNodes A * q) mod numNodes A = (p' + numNodes A * q') mod numNodes A"
    by simp
  with assms(1,2) have p: "p = p'" by simp
  with e have "numNodes A * q = numNodes A * q'" by simp
  with assms(1) have "q = q'" by simp
  with p show ?thesis by simp
qed

lemma toIndex_less:
  assumes "p < numNodes A" and "q < numNodes B"
  shows "toIndex p q A < numNodes A * numNodes B"
proof -
  have "p + numNodes A * q < numNodes A + numNodes A * q" using assms(1) by simp
  also have "\<dots> = numNodes A * Suc q" by simp
  also have "\<dots> \<le> numNodes A * numNodes B"
    using assms(2) by (intro mult_le_mono2) simp
  finally show ?thesis by (simp add: toIndex_def)
qed

lemma gok_addNode:
  assumes "gok A B sm ng" and "dn1 < numNodes A" and "dn2 < numNodes B"
    and "s \<longrightarrow> start A dn1 \<and> start B dn2" and "a \<longrightarrow> accept A dn1 \<and> accept B dn2"
  shows "gok A B (sm(numNodes ng := (dn1, dn2))) (addNode s a ng)"
proof -
  let ?sm = "sm(numNodes ng := (dn1, dn2))"
  have n: "numNodes (addNode s a ng) = Suc (numNodes ng)"
    by (simp add: addNode_def numNodes_def)
  have old: "start (addNode s a ng) k = start ng k" "accept (addNode s a ng) k = accept ng k"
    if "k < numNodes ng" for k
    using that by (simp_all add: addNode_def numNodes_def start_def accept_def nth_append)
  have new: "start (addNode s a ng) (numNodes ng) = s" "accept (addNode s a ng) (numNodes ng) = a"
    by (simp_all add: addNode_def numNodes_def start_def accept_def)
  have ar: "arcs (addNode s a ng) = arcs ng" by (simp add: addNode_def)
  from assms(1) have 1: "\<And>k. k < numNodes ng \<Longrightarrow> fst (sm k) < numNodes A \<and> snd (sm k) < numNodes B
        \<and> (start ng k \<longrightarrow> start A (fst (sm k)) \<and> start B (snd (sm k)))
        \<and> (accept ng k \<longrightarrow> accept A (fst (sm k)) \<and> accept B (snd (sm k)))"
    and 2: "\<And>x. x \<in> set (arcs ng) \<Longrightarrow> up x < numNodes ng \<and> down x < numNodes ng
        \<and> cstep A B (sm (up x)) (il x, ol x, wt x) (sm (down x))"
    by (simp_all add: gok_def)
  have nodes_ok: "fst (?sm k) < numNodes A \<and> snd (?sm k) < numNodes B
        \<and> (start (addNode s a ng) k \<longrightarrow> start A (fst (?sm k)) \<and> start B (snd (?sm k)))
        \<and> (accept (addNode s a ng) k \<longrightarrow> accept A (fst (?sm k)) \<and> accept B (snd (?sm k)))"
    if "k < Suc (numNodes ng)" for k
  proof (cases "k = numNodes ng")
    case True
    then show ?thesis using assms(2,3,4,5) by (simp add: new)
  next
    case False
    with that have k: "k < numNodes ng" by simp
    with 1 [OF k] False show ?thesis by (simp add: old)
  qed
  have arcs_ok: "up x < Suc (numNodes ng) \<and> down x < Suc (numNodes ng)
        \<and> cstep A B (?sm (up x)) (il x, ol x, wt x) (?sm (down x))"
    if "x \<in> set (arcs ng)" for x
    using 2 [OF that] by simp
  show ?thesis
    unfolding gok_def n ar using nodes_ok arcs_ok by blast
qed

lemma gok_addArc:
  assumes "gok A B sm ng" and "u < numNodes ng" and "d < numNodes ng"
    and "cstep A B (sm u) (i, j, w) (sm d)"
  shows "gok A B sm (addArc u d i j w ng)"
proof -
  have n: "numNodes (addArc u d i j w ng) = numNodes ng"
    "start (addArc u d i j w ng) = start ng" "accept (addArc u d i j w ng) = accept ng"
    by (simp_all add: addArc_def numNodes_def start_def accept_def fun_eq_iff)
  have ar: "set (arcs (addArc u d i j w ng))
      = insert \<lparr>up = u, down = d, il = i, ol = j, wt = w\<rparr> (set (arcs ng))"
    by (simp add: addArc_def)
  from assms(1) have 1: "\<forall>k<numNodes ng. fst (sm k) < numNodes A \<and> snd (sm k) < numNodes B
        \<and> (start ng k \<longrightarrow> start A (fst (sm k)) \<and> start B (snd (sm k)))
        \<and> (accept ng k \<longrightarrow> accept A (fst (sm k)) \<and> accept B (snd (sm k)))"
    and 2: "\<forall>a \<in> set (arcs ng). up a < numNodes ng \<and> down a < numNodes ng
        \<and> cstep A B (sm (up a)) (il a, ol a, wt a) (sm (down a))"
    by (simp_all add: gok_def)
  show ?thesis
    unfolding gok_def n ar using 1 2 assms(2,3,4) by simp
qed


lemma numNodes_addNode: "numNodes (addNode s a g) = Suc (numNodes g)"
  by (simp add: addNode_def numNodes_def)

lemma numNodes_addArc: "numNodes (addArc u d i j w g) = numNodes g"
  by (simp add: addArc_def numNodes_def)

lemma cinv0_D:
  assumes "cinv0 A B sm (ng, nn, te, gi)"
  shows "length nn = numNodes A * numNodes B"
    and "\<And>p q. p < numNodes A \<Longrightarrow> q < numNodes B \<Longrightarrow> 0 \<le> nn ! toIndex p q A \<Longrightarrow>
          nat (nn ! toIndex p q A) < numNodes ng \<and> sm (nat (nn ! toIndex p q A)) = (p, q)"
    and "gok A B sm ng"
    and "\<And>s. s \<in> set te \<Longrightarrow> fst s < numNodes A \<and> snd s < numNodes B
          \<and> 0 \<le> nn ! toIndex (fst s) (snd s) A"
  using assms by (simp_all add: cinv0_def)

lemma cinv0_I:
  assumes "length nn = numNodes A * numNodes B"
    and "\<And>p q. p < numNodes A \<Longrightarrow> q < numNodes B \<Longrightarrow> 0 \<le> nn ! toIndex p q A \<Longrightarrow>
          nat (nn ! toIndex p q A) < numNodes ng \<and> sm (nat (nn ! toIndex p q A)) = (p, q)"
    and "gok A B sm ng"
    and "\<And>s. s \<in> set te \<Longrightarrow> fst s < numNodes A \<and> snd s < numNodes B
          \<and> 0 \<le> nn ! toIndex (fst s) (snd s) A"
  shows "cinv0 A B sm (ng, nn, te, gi)"
  using assms by (simp add: cinv0_def)

text \<open>Building a node for a state keeps the invariant and leaves the built entries alone.\<close>

lemma cinv0_new_node:
  assumes sm: "cinv0 A B sm (ng, nn, te, gi)"
    and d: "dn1 < numNodes A" "dn2 < numNodes B"
    and s: "s \<longrightarrow> start A dn1 \<and> start B dn2" and a: "a \<longrightarrow> accept A dn1 \<and> accept B dn2"
  shows "cinv0 A B (sm(numNodes ng := (dn1, dn2)))
      (addNode s a ng, nn[toIndex dn1 dn2 A := int (numNodes ng)], te @ [(dn1, dn2)], gi')"
proof (rule cinv0_I)
  let ?idx = "toIndex dn1 dn2 A" and ?k = "numNodes ng"
  let ?sm = "sm(?k := (dn1, dn2))"
  note D = cinv0_D [OF sm]
  have idx: "?idx < length nn" using toIndex_less [OF d] D(1) by simp
  show "length (nn[?idx := int ?k]) = numNodes A * numNodes B" using D(1) by simp
  show "gok A B ?sm (addNode s a ng)" by (rule gok_addNode [OF D(3) d s a])
  show "nat (nn[?idx := int ?k] ! toIndex p' q' A) < numNodes (addNode s a ng)
      \<and> ?sm (nat (nn[?idx := int ?k] ! toIndex p' q' A)) = (p', q')"
    if b: "p' < numNodes A" "q' < numNodes B" and nz: "0 \<le> nn[?idx := int ?k] ! toIndex p' q' A"
    for p' q'
  proof (cases "toIndex p' q' A = ?idx")
    case True
    with toIndex_inj [OF b(1) d(1)] have "p' = dn1 \<and> q' = dn2" by simp
    with True idx show ?thesis by (simp add: numNodes_addNode)
  next
    case False
    then have e: "nn[?idx := int ?k] ! toIndex p' q' A = nn ! toIndex p' q' A" by simp
    with nz have "0 \<le> nn ! toIndex p' q' A" by simp
    from D(2) [OF b this] show ?thesis unfolding e by (simp add: numNodes_addNode)
  qed
  show "fst x < numNodes A \<and> snd x < numNodes B
      \<and> 0 \<le> nn[?idx := int ?k] ! toIndex (fst x) (snd x) A"
    if "x \<in> set (te @ [(dn1, dn2)])" for x
  proof (cases "x = (dn1, dn2)")
    case True
    with d idx show ?thesis by simp
  next
    case False
    with that have x: "x \<in> set te" by simp
    note X = D(4) [OF x]
    show ?thesis
    proof (cases "toIndex (fst x) (snd x) A = ?idx")
      case True
      with idx X show ?thesis by simp
    next
      case False
      with X show ?thesis by simp
    qed
  qed
qed

lemma compose_arc_inv:
  assumes inv: "cinvAt A B p q c st"
    and d: "dn1 < numNodes A" "dn2 < numNodes B"
    and stp: "cstep A B (p, q) (i, j, w) (dn1, dn2)"
  shows "cinvAt A B p q c (compose_arc A B r c dn1 dn2 i j w prov st)"
proof -
  obtain ng nn te gi where st: "st = (ng, nn, te, gi)" by (cases st)
  from inv obtain sm where sm: "cinv0 A B sm (ng, nn, te, gi)"
    and pq: "p < numNodes A" "q < numNodes B" and c: "nn ! toIndex p q A = int c"
    by (auto simp: cinvAt_def st)
  note D = cinv0_D [OF sm]
  let ?idx = "toIndex dn1 dn2 A" and ?k = "numNodes ng"
  have idx: "?idx < length nn" using toIndex_less [OF d] D(1) by simp
  from D(2) [OF pq] c have cn: "c < numNodes ng" "sm c = (p, q)" by simp_all
  show ?thesis
  proof (cases "?idx < length r \<and> r ! ?idx")
    case False
    then have "compose_arc A B r c dn1 dn2 i j w prov st = st"
      by (auto simp: st compose_arc_def Let_def)
    with inv show ?thesis by simp
  next
    case True
    show ?thesis
    proof (cases "nn ! ?idx < 0")
      case neg: True
      let ?ng1 = "addNode (start A dn1 \<and> start B dn2) (accept A dn1 \<and> accept B dn2) ng"
      let ?nn1 = "nn[?idx := int ?k]"
      let ?sm = "sm(?k := (dn1, dn2))"
      have res: "compose_arc A B r c dn1 dn2 i j w prov st
          = (addArc c ?k i j w ?ng1, ?nn1, te @ [(dn1, dn2)], gi @ [prov])"
        using True neg idx by (simp add: st compose_arc_def compose_node_def Let_def)
      have 1: "cinv0 A B ?sm (?ng1, ?nn1, te @ [(dn1, dn2)], gi @ [prov])"
        by (rule cinv0_new_node [OF sm d]) simp_all
      note E = cinv0_D [OF 1]
      have "cstep A B (?sm c) (i, j, w) (?sm ?k)" using cn stp by simp
      then have g2: "gok A B ?sm (addArc c ?k i j w ?ng1)"
        using cn(1) by (intro gok_addArc [OF E(3)]) (simp_all add: numNodes_addNode)
      have 2: "cinv0 A B ?sm (addArc c ?k i j w ?ng1, ?nn1, te @ [(dn1, dn2)], gi @ [prov])"
        by (rule cinv0_I) (use E g2 in \<open>simp_all add: numNodes_addArc\<close>)
      have "toIndex p q A \<noteq> ?idx" using c neg by auto
      then have "?nn1 ! toIndex p q A = int c" using c by simp
      with 2 pq show ?thesis unfolding res cinvAt_def by auto
    next
      case False
      then have nz: "0 \<le> nn ! ?idx" by simp
      have res: "compose_arc A B r c dn1 dn2 i j w prov st
          = (addArc c (nat (nn ! ?idx)) i j w ng, nn, te, gi @ [prov])"
        using True False by (simp add: st compose_arc_def compose_node_def Let_def)
      from D(2) [OF d nz] have dn: "nat (nn ! ?idx) < numNodes ng" "sm (nat (nn ! ?idx)) = (dn1, dn2)"
        by simp_all
      have "cstep A B (sm c) (i, j, w) (sm (nat (nn ! ?idx)))" using cn dn stp by simp
      then have g2: "gok A B sm (addArc c (nat (nn ! ?idx)) i j w ng)"
        by (intro gok_addArc [OF D(3) cn(1) dn(1)])
      have 2: "cinv0 A B sm (addArc c (nat (nn ! ?idx)) i j w ng, nn, te, gi @ [prov])"
        by (rule cinv0_I) (use D g2 in \<open>simp_all add: numNodes_addArc\<close>)
      with pq c show ?thesis unfolding res cinvAt_def by auto
    qed
  qed
qed


lemma fold_inv:
  assumes "\<And>x s. x \<in> set xs \<Longrightarrow> P s \<Longrightarrow> P (f x s)" and "P s"
  shows "P (fold f xs s)"
  using assms by (induction xs arbitrary: s) simp_all

lemma wf_arc:
  assumes "wf_graph g" and "a < numArcs g"
  shows "upNode g a < numNodes g" and "downNode g a < numNodes g"
proof -
  from assms(1) have "list_all (\<lambda>a. up a < numNodes g \<and> down a < numNodes g) (arcs g)"
    by (simp add: wf_graph_def)
  with assms(2) have "up (arcs g ! a) < numNodes g \<and> down (arcs g ! a) < numNodes g"
    by (simp add: list_all_length numArcs_def)
  then show "upNode g a < numNodes g" and "downNode g a < numNodes g"
    by (simp_all add: upNode_def downNode_def)
qed

lemma wf_start:
  assumes "wf_graph g" and "s \<in> set (startL g)"
  shows "s < numNodes g" and "start g s"
proof -
  from assms(1) have "set (startL g) = set (filter (start g) [0..<numNodes g])"
    by (simp add: wf_graph_def)
  with assms(2) show "s < numNodes g" and "start g s" by simp_all
qed

lemma wf_accept:
  assumes "wf_graph g" and "s \<in> set (acceptL g)"
  shows "s < numNodes g" and "accept g s"
proof -
  from assms(1) have "set (acceptL g) = set (filter (accept g) [0..<numNodes g])"
    by (simp add: wf_graph_def)
  with assms(2) show "s < numNodes g" and "accept g s" by simp_all
qed

lemma outArcs_D: "a \<in> set (outArcs g n) \<Longrightarrow> a < numArcs g \<and> upNode g a = n"
  by (simp add: outArcs_def)

lemma inArcs_D: "a \<in> set (inArcs g n) \<Longrightarrow> a < numArcs g \<and> downNode g a = n"
  by (simp add: inArcs_def)

lemma compose_pair_inv:
  assumes wf: "wf_graph A" "wf_graph B"
    and i: "i \<in> set (outArcs A p)" and j: "j \<in> set (outArcs B q)"
    and inv: "cinvAt A B p q c st"
  shows "cinvAt A B p q c (compose_pair A B r c i j st)"
proof (cases "olabel A i = ilabel B j")
  case False
  with inv show ?thesis by (simp add: compose_pair_def)
next
  case True
  note I = outArcs_D [OF i] and J = outArcs_D [OF j]
  have "cstep A B (p, q) (ilabel A i, olabel B j, fadd (weight A i) (weight B j))
      (downNode A i, downNode B j)"
    unfolding cstep_def using I J True by auto
  then have "cinvAt A B p q c (compose_arc A B r c (downNode A i) (downNode B j)
      (ilabel A i) (olabel B j) (fadd (weight A i) (weight B j)) (int i, int j) st)"
    using wf_arc(2) [OF wf(1)] wf_arc(2) [OF wf(2)] I J
    by (intro compose_arc_inv [OF inv]) simp_all
  with True show ?thesis by (simp add: compose_pair_def)
qed

lemma compose_first_inv:
  assumes wf: "wf_graph A" "wf_graph B"
    and i: "i \<in> set (outArcs A p)"
    and inv: "cinvAt A B p q c st"
  shows "cinvAt A B p q c (compose_first A B r c q i st)"
proof (cases "olabel A i = epsilon")
  case False
  with inv show ?thesis by (simp add: compose_first_def)
next
  case True
  note I = outArcs_D [OF i]
  from inv have q: "q < numNodes B" by (simp add: cinvAt_def)
  have "cstep A B (p, q) (ilabel A i, epsilon, weight A i) (downNode A i, q)"
    unfolding cstep_def using I True by auto
  then have "cinvAt A B p q c (compose_arc A B r c (downNode A i) q
      (ilabel A i) epsilon (weight A i) (int i, - 1) st)"
    using wf_arc(2) [OF wf(1)] I q
    by (intro compose_arc_inv [OF inv]) simp_all
  with True show ?thesis by (simp add: compose_first_def)
qed

lemma compose_second_inv:
  assumes wf: "wf_graph A" "wf_graph B"
    and j: "j \<in> set (outArcs B q)"
    and inv: "cinvAt A B p q c st"
  shows "cinvAt A B p q c (compose_second A B r c p j st)"
proof (cases "ilabel B j = epsilon")
  case False
  with inv show ?thesis by (simp add: compose_second_def)
next
  case True
  note J = outArcs_D [OF j]
  from inv have p: "p < numNodes A" by (simp add: cinvAt_def)
  have "cstep A B (p, q) (epsilon, olabel B j, weight B j) (p, downNode B j)"
    unfolding cstep_def using J True by auto
  then have "cinvAt A B p q c (compose_arc A B r c p (downNode B j)
      epsilon (olabel B j) (weight B j) (- 1, int j) st)"
    using wf_arc(2) [OF wf(2)] J p
    by (intro compose_arc_inv [OF inv]) simp_all
  with True show ?thesis by (simp add: compose_second_def)
qed

lemma compose_step_inv:
  assumes wf: "wf_graph A" "wf_graph B"
    and inv: "cinv0 A B sm (ng, nn, cur # te, gi)"
  shows "\<exists>sm'. cinv0 A B sm' (compose_step A B r cur (ng, nn, te, gi))"
proof -
  obtain p q where cur: "cur = (p, q)" by (cases cur)
  note D = cinv0_D [OF inv]
  from D(4) [of cur] have pq: "p < numNodes A" "q < numNodes B" "0 \<le> nn ! toIndex p q A"
    by (simp_all add: cur)
  define c where "c = nat (nn ! toIndex p q A)"
  have "cinv0 A B sm (ng, nn, te, gi)"
    by (rule cinv0_I) (use D in simp_all)
  then have 0: "cinvAt A B p q c (ng, nn, te, gi)"
    using pq by (auto simp: cinvAt_def c_def)
  let ?P = "cinvAt A B p q c"
  let ?s1 = "fold (\<lambda>i. fold (compose_pair A B r c i) (outArcs B q)) (outArcs A p)
      (ng, nn, te, gi)"
  let ?s2 = "fold (compose_first A B r c q) (outArcs A p) ?s1"
  let ?s3 = "fold (compose_second A B r c p) (outArcs B q) ?s2"
  have 1: "?P ?s1"
  proof (rule fold_inv [where P = ?P])
    show "?P (ng, nn, te, gi)" by (rule 0)
  next
    fix i s assume i: "i \<in> set (outArcs A p)" and s: "?P s"
    show "?P (fold (compose_pair A B r c i) (outArcs B q) s)"
    proof (rule fold_inv [where P = ?P])
      show "?P s" by (rule s)
    next
      fix j s' assume "j \<in> set (outArcs B q)" and "?P s'"
      then show "?P (compose_pair A B r c i j s')"
        by (rule compose_pair_inv [OF wf i])
    qed
  qed
  have 2: "?P ?s2"
  proof (rule fold_inv [where P = ?P])
    show "?P ?s1" by (rule 1)
  next
    fix i s assume "i \<in> set (outArcs A p)" and "?P s"
    then show "?P (compose_first A B r c q i s)"
      by (rule compose_first_inv [OF wf])
  qed
  have 3: "?P ?s3"
  proof (rule fold_inv [where P = ?P])
    show "?P ?s2" by (rule 2)
  next
    fix j s assume "j \<in> set (outArcs B q)" and "?P s"
    then show "?P (compose_second A B r c p j s)"
      by (rule compose_second_inv [OF wf])
  qed
  then show ?thesis
    by (simp add: compose_step_def cur Let_def c_def cinvAt_def)
qed

lemma compose_loop_inv:
  "wf_graph A \<Longrightarrow> wf_graph B \<Longrightarrow> \<exists>sm. cinv0 A B sm st
    \<Longrightarrow> \<exists>sm. gok A B sm (fst (compose_loop A B r st))"
proof (induction A B r st rule: compose_loop.induct)
  case (1 first second reachable ngraph newNodes gradInfo)
  then show ?case by (auto dest: cinv0_D(3))
next
  case (2 first second reachable ngraph newNodes cur toExplore gradInfo)
  from "2.prems"(3) obtain sm
    where "cinv0 first second sm (ngraph, newNodes, cur # toExplore, gradInfo)" ..
  then have "\<exists>sm'. cinv0 first second sm'
      (compose_step first second reachable cur (ngraph, newNodes, toExplore, gradInfo))"
    by (rule compose_step_inv [OF "2.prems"(1,2)])
  from "2.IH" [OF "2.prems"(1,2) this] show ?case by simp
qed


lemma compose_init_inv:
  assumes wf: "wf_graph A" "wf_graph B"
  shows "\<exists>sm. cinv0 A B sm (case compose_init A B r of (ng, nn, te) \<Rightarrow> (ng, nn, te, []))"
proof -
  let ?P = "\<lambda>st. \<exists>sm. cinv0 A B sm (case st of (ng, nn, te) \<Rightarrow> (ng, nn, te, []))"
  let ?body = "\<lambda>s1 s2 (ngraph, newNodes, toExplore).
               (let idx = toIndex s1 s2 A in
                if idx < length r \<and> r ! idx
                then (addNode True (accept A s1 \<and> accept B s2) ngraph,
                      newNodes[idx := int (numNodes ngraph)], toExplore @ [(s1, s2)])
                else (ngraph, newNodes, toExplore))"
  have step: "?P (?body s1 s2 st)"
    if s1: "s1 \<in> set (startL A)" and s2: "s2 \<in> set (startL B)" and st: "?P st" for s1 s2 st
  proof -
    obtain ng nn te where e: "st = (ng, nn, te)" by (cases st)
    from st obtain sm where sm: "cinv0 A B sm (ng, nn, te, [])" by (auto simp: e)
    show ?thesis
    proof (cases "toIndex s1 s2 A < length r \<and> r ! toIndex s1 s2 A")
      case True
      have "cinv0 A B (sm(numNodes ng := (s1, s2)))
          (addNode True (accept A s1 \<and> accept B s2) ng,
           nn[toIndex s1 s2 A := int (numNodes ng)], te @ [(s1, s2)], [])"
        using wf_start [OF wf(1) s1] wf_start [OF wf(2) s2]
        by (intro cinv0_new_node [OF sm]) simp_all
      with True show ?thesis by (auto simp: e Let_def)
    next
      case False
      with sm show ?thesis by (auto simp: e Let_def)
    qed
  qed
  have init: "?P (emptyGraph, replicate (numNodes A * numNodes B) (- 1), [])"
  proof -
    have "cinv0 A B (\<lambda>k. (0, 0)) (emptyGraph, replicate (numNodes A * numNodes B) (- 1), [], [])"
    proof (rule cinv0_I)
      show "gok A B (\<lambda>k. (0, 0)) emptyGraph"
        by (simp add: gok_def emptyGraph_def numNodes_def)
      fix p q assume "p < numNodes A" "q < numNodes B"
        and z: "0 \<le> replicate (numNodes A * numNodes B) (- 1 :: int) ! toIndex p q A"
      then have "toIndex p q A < numNodes A * numNodes B" by (intro toIndex_less)
      with z show "nat (replicate (numNodes A * numNodes B) (- 1) ! toIndex p q A)
            < numNodes emptyGraph
          \<and> (0, 0) = (p, q)"
        by simp
    qed simp_all
    then show ?thesis by auto
  qed
  have "?P (fold (\<lambda>s1. fold (?body s1) (startL B)) (startL A)
      (emptyGraph, replicate (numNodes A * numNodes B) (- 1), []))"
  proof (rule fold_inv [where P = ?P])
    show "?P (emptyGraph, replicate (numNodes A * numNodes B) (- 1), [])" by (rule init)
  next
    fix s1 st assume s1: "s1 \<in> set (startL A)" and st: "?P st"
    show "?P (fold (?body s1) (startL B) st)"
    proof (rule fold_inv [where P = ?P])
      show "?P st" by (rule st)
    next
      fix s2 st' assume "s2 \<in> set (startL B)" and "?P st'"
      then show "?P (?body s1 s2 st')" by (rule step [OF s1])
    qed
  qed
  then show ?thesis by (simp add: compose_init_def)
qed

lemma compose_gok:
  assumes "wf_graph A" and "wf_graph B"
  shows "\<exists>sm. gok A B sm (compose A B)"
proof -
  obtain ng nn te where i: "compose_init A B (findReachable A B) = (ng, nn, te)"
    by (cases "compose_init A B (findReachable A B)")
  from compose_init_inv [OF assms, of "findReachable A B"]
  have "\<exists>sm. cinv0 A B sm (ng, nn, te, [])" by (simp add: i)
  from compose_loop_inv [OF assms this]
  show ?thesis by (simp add: compose_def compose_run_def i)
qed

lemma path_labels_Cons:
  "path_ilabels g (a # as) =
     (if ilabel g a = epsilon then path_ilabels g as else ilabel g a # path_ilabels g as)"
  "path_olabels g (a # as) =
     (if olabel g a = epsilon then path_olabels g as else olabel g a # path_olabels g as)"
  "path_weight g (a # as) = fadd (weight g a) (path_weight g as)"
  "path_ilabels g [] = []" "path_olabels g [] = []" "path_weight g [] = Fin 0"
  by (simp_all add: path_ilabels_def path_olabels_def path_weight_def)

lemma gok_nodes:
  assumes "gok A B sm ng" and "k < numNodes ng"
  shows "fst (sm k) < numNodes A" "snd (sm k) < numNodes B"
    "start ng k \<Longrightarrow> start A (fst (sm k)) \<and> start B (snd (sm k))"
    "accept ng k \<Longrightarrow> accept A (fst (sm k)) \<and> accept B (snd (sm k))"
  using assms by (simp_all add: gok_def)

lemma gok_arc:
  assumes "gok A B sm ng" and "a < numArcs ng"
  shows "downNode ng a < numNodes ng"
    "cstep A B (sm (upNode ng a)) (ilabel ng a, olabel ng a, weight ng a) (sm (downNode ng a))"
proof -
  from assms(2) have "arcs ng ! a \<in> set (arcs ng)" by (simp add: numArcs_def)
  with assms(1) have "down (arcs ng ! a) < numNodes ng \<and>
      cstep A B (sm (up (arcs ng ! a))) (il (arcs ng ! a), ol (arcs ng ! a), wt (arcs ng ! a))
        (sm (down (arcs ng ! a)))"
    unfolding gok_def by blast
  then show "downNode ng a < numNodes ng"
    "cstep A B (sm (upNode ng a)) (ilabel ng a, olabel ng a, weight ng a) (sm (downNode ng a))"
    by (simp_all add: upNode_def downNode_def ilabel_def olabel_def weight_def)
qed

lemma gok_path:
  assumes g: "gok A B sm ng"
  shows "n < numNodes ng \<Longrightarrow> is_path ng n p \<Longrightarrow>
    \<exists>pA pB. is_path A (fst (sm n)) pA \<and> is_path B (snd (sm n)) pB
      \<and> path_end A (fst (sm n)) pA = fst (sm (path_end ng n p))
      \<and> path_end B (snd (sm n)) pB = snd (sm (path_end ng n p))
      \<and> path_end ng n p < numNodes ng \<and> path_match A B ng pA pB p"
proof (induction p arbitrary: n)
  case Nil
  have "is_path A (fst (sm n)) [] \<and> is_path B (snd (sm n)) []
      \<and> path_end A (fst (sm n)) [] = fst (sm (path_end ng n []))
      \<and> path_end B (snd (sm n)) [] = snd (sm (path_end ng n []))
      \<and> path_end ng n [] < numNodes ng \<and> path_match A B ng [] [] []"
    using Nil by (simp add: path_match_def path_labels_Cons)
  then show ?case by blast
next
  case (Cons a p)
  from Cons.prems(2) have a: "a < numArcs ng" "upNode ng a = n" "is_path ng (downNode ng a) p"
    by simp_all
  let ?d = "downNode ng a"
  note G = gok_arc [OF g a(1)]
  from Cons.IH [OF G(1) a(3)] obtain pA pB where
    IH: "is_path A (fst (sm ?d)) pA" "is_path B (snd (sm ?d)) pB"
      "path_end A (fst (sm ?d)) pA = fst (sm (path_end ng ?d p))"
      "path_end B (snd (sm ?d)) pB = snd (sm (path_end ng ?d p))"
      "path_end ng ?d p < numNodes ng" "path_match A B ng pA pB p"
    by blast
  from IH(6) have M: "path_ilabels A pA = path_ilabels ng p"
    "path_olabels A pA = path_ilabels B pB" "path_olabels B pB = path_olabels ng p"
    by (simp_all add: path_match_def)
  from G(2) a(2) consider
    (pair) i j where "i < numArcs A" "j < numArcs B" "upNode A i = fst (sm n)"
      "upNode B j = snd (sm n)" "downNode A i = fst (sm ?d)" "downNode B j = snd (sm ?d)"
      "olabel A i = ilabel B j" "ilabel ng a = ilabel A i" "olabel ng a = olabel B j"
      "weight ng a = fadd (weight A i) (weight B j)"
    | (first) i where "i < numArcs A" "upNode A i = fst (sm n)" "downNode A i = fst (sm ?d)"
      "snd (sm ?d) = snd (sm n)" "olabel A i = epsilon" "ilabel ng a = ilabel A i"
      "olabel ng a = epsilon" "weight ng a = weight A i"
    | (second) j where "j < numArcs B" "upNode B j = snd (sm n)" "downNode B j = snd (sm ?d)"
      "fst (sm ?d) = fst (sm n)" "ilabel B j = epsilon" "ilabel ng a = epsilon"
      "olabel ng a = olabel B j" "weight ng a = weight B j"
    unfolding cstep_def by auto
  then show ?case
  proof cases
    case pair
    have "is_path A (fst (sm n)) (i # pA) \<and> is_path B (snd (sm n)) (j # pB)
      \<and> path_end A (fst (sm n)) (i # pA) = fst (sm (path_end ng n (a # p)))
      \<and> path_end B (snd (sm n)) (j # pB) = snd (sm (path_end ng n (a # p)))
      \<and> path_end ng n (a # p) < numNodes ng \<and> path_match A B ng (i # pA) (j # pB) (a # p)"
      using pair IH(1-5) M(1-3) by (simp add: path_match_def path_labels_Cons)
    then show ?thesis by blast
  next
    case first
    have "is_path A (fst (sm n)) (i # pA) \<and> is_path B (snd (sm n)) pB
      \<and> path_end A (fst (sm n)) (i # pA) = fst (sm (path_end ng n (a # p)))
      \<and> path_end B (snd (sm n)) pB = snd (sm (path_end ng n (a # p)))
      \<and> path_end ng n (a # p) < numNodes ng \<and> path_match A B ng (i # pA) pB (a # p)"
      using first IH(1-5) M(1-3) by (simp add: path_match_def path_labels_Cons)
    then show ?thesis by blast
  next
    case second
    have "is_path A (fst (sm n)) pA \<and> is_path B (snd (sm n)) (j # pB)
      \<and> path_end A (fst (sm n)) pA = fst (sm (path_end ng n (a # p)))
      \<and> path_end B (snd (sm n)) (j # pB) = snd (sm (path_end ng n (a # p)))
      \<and> path_end ng n (a # p) < numNodes ng \<and> path_match A B ng pA (j # pB) (a # p)"
      using second IH(1-5) M(1-3) by (simp add: path_match_def path_labels_Cons)
    then show ?thesis by blast
  qed
qed

text \<open>
  The direction from the composed graph to its inputs holds for the labels. For
  well-formed graphs \<open>A\<close> and \<open>B\<close>, every accepting path of \<open>compose(A, B)\<close> comes from
  an accepting path of \<open>A\<close> and one of \<open>B\<close>: the input labels of the first are those of
  the composed path, its output labels are the input labels of the second, and the
  output labels of the second are those of the composed path (epsilons left out). Each
  arc of the composed path carries the rounded sum of the weights of the two arcs it
  pairs, or the weight of the single arc it follows; that is the invariant \<open>gok\<close>. The
  weights along the three paths are sums of floats taken in different orders, which
  agree only up to rounding.
\<close>

lemma compose_labels_sound:
  assumes "wf_graph A" and "wf_graph B" and "accepting_path (compose A B) n p"
  shows "\<exists>nA pA nB pB. accepting_path A nA pA \<and> accepting_path B nB pB
    \<and> path_ilabels A pA = path_ilabels (compose A B) p
    \<and> path_olabels A pA = path_ilabels B pB
    \<and> path_olabels B pB = path_olabels (compose A B) p"
proof -
  let ?C = "compose A B"
  from compose_gok [OF assms(1,2)] obtain sm where g: "gok A B sm ?C" ..
  from assms(3) have n: "n < numNodes ?C" "start ?C n" "is_path ?C n p"
    "accept ?C (path_end ?C n p)"
    by (simp_all add: accepting_path_def)
  from gok_path [OF g n(1,3)] obtain pA pB where
    P: "is_path A (fst (sm n)) pA" "is_path B (snd (sm n)) pB"
      "path_end A (fst (sm n)) pA = fst (sm (path_end ?C n p))"
      "path_end B (snd (sm n)) pB = snd (sm (path_end ?C n p))"
      "path_end ?C n p < numNodes ?C" "path_match A B ?C pA pB p"
    by blast
  note S = gok_nodes [OF g n(1)] and E = gok_nodes [OF g P(5)]
  have "accepting_path A (fst (sm n)) pA" "accepting_path B (snd (sm n)) pB"
    using S(1,2) S(3) [OF n(2)] E(1,2) E(4) [OF n(4)] P(1-4)
    by (simp_all add: accepting_path_def)
  with P(6) show ?thesis unfolding path_match_def by blast
qed

section \<open>Cycles before an accept node\<close>

lemma finv_D:
  assumes "finv g Q D (scores, degrees, computed)"
  shows "length scores = numNodes g" "length degrees = numNodes g"
    and "\<And>a. a \<in> D \<Longrightarrow> a < numArcs g \<and> upNode g a \<in> Q"
    and "\<And>m. m < numNodes g \<Longrightarrow>
          degrees ! m = int (numIn g m) - int (card {a \<in> D. downNode g a = m})"
    and "distinct computed" "set computed \<inter> Q = {}"
    and "\<And>m. m \<in> Q \<union> set computed \<Longrightarrow> m < numNodes g"
    and "\<And>m. m < numNodes g \<Longrightarrow> m \<in> Q \<union> set computed \<longleftrightarrow>
          degrees ! m = 0 \<and> (numIn g m = 0 \<longrightarrow> m \<in> set (startL g))"
  using assms unfolding finv_def by (simp_all del: Un_iff)

lemma finv_I:
  assumes "length scores = numNodes g" "length degrees = numNodes g"
    and "\<And>a. a \<in> D \<Longrightarrow> a < numArcs g \<and> upNode g a \<in> Q"
    and "\<And>m. m < numNodes g \<Longrightarrow>
          degrees ! m = int (numIn g m) - int (card {a \<in> D. downNode g a = m})"
    and "distinct computed" "set computed \<inter> Q = {}"
    and "\<And>m. m \<in> Q \<union> set computed \<Longrightarrow> m < numNodes g"
    and "\<And>m. m < numNodes g \<Longrightarrow> m \<in> Q \<union> set computed \<longleftrightarrow>
          degrees ! m = 0 \<and> (numIn g m = 0 \<longrightarrow> m \<in> set (startL g))"
  shows "finv g Q D (scores, degrees, computed)"
  using assms unfolding finv_def by (simp del: Un_iff)

lemma card_inArcs: "card (set (inArcs g m)) = numIn g m"
proof -
  have "distinct (inArcs g m)" by (simp add: inArcs_def)
  then show ?thesis by (simp add: numIn_def distinct_card)
qed

text \<open>The relaxed arcs into a node are among its incoming arcs.\<close>

lemma done_in:
  assumes "\<And>a. a \<in> D \<Longrightarrow> a < numArcs g \<and> upNode g a \<in> Q"
  shows "{a \<in> D. downNode g a = m} \<subseteq> set (inArcs g m)"
    and "finite {a \<in> D. downNode g a = m}"
    and "card {a \<in> D. downNode g a = m} \<le> numIn g m"
proof -
  show s: "{a \<in> D. downNode g a = m} \<subseteq> set (inArcs g m)"
    using assms by (auto simp: inArcs_def)
  then show f: "finite {a \<in> D. downNode g a = m}"
    by (rule finite_subset) simp
  have "card {a \<in> D. downNode g a = m} \<le> card (set (inArcs g m))"
    by (rule card_mono [OF _ s]) simp
  also have "\<dots> = numIn g m" by (rule card_inArcs)
  finally show "card {a \<in> D. downNode g a = m} \<le> numIn g m" .
qed

lemma done_all:
  assumes D: "\<And>a. a \<in> D \<Longrightarrow> a < numArcs g \<and> upNode g a \<in> Q"
    and c: "card {a \<in> D. downNode g a = m} = numIn g m"
    and a: "a < numArcs g" "downNode g a = m"
  shows "a \<in> D"
proof -
  from c card_inArcs [of g m] have "card {a \<in> D. downNode g a = m} = card (set (inArcs g m))" by simp
  with done_in(1) [of D g Q m, OF D] have "{a \<in> D. downNode g a = m} = set (inArcs g m)"
    by (intro card_subset_eq) simp_all
  moreover from a have "a \<in> set (inArcs g m)" by (simp add: inArcs_def)
  ultimately show ?thesis by blast
qed

lemma forward_arc_finv:
  assumes wf: "wf_graph g" and pc: "predclosed g T"
    and inv: "finvT g T Q D (scores, degrees, computed)"
    and a: "a < numArcs g" "a \<notin> D" "upNode g a \<in> Q"
  shows "finvT g T Q (insert a D) (forward_arc g score a (scores, degrees, computed))"
proof -
  let ?dn = "downNode g a"
  from inv have finv: "finv g Q D (scores, degrees, computed)"
    and tq: "T \<inter> (Q \<union> set computed) = {}"
    by (simp_all add: finvT_def)
  note I = finv_D [OF finv]
  have dn: "?dn < numNodes g" by (rule wf_arc(2) [OF wf a(1)])
  let ?deg = "degrees[?dn := degrees ! ?dn - 1]"
  let ?sc = "scores[?dn := logadd (fadd score (weight g a)) (scores ! ?dn)]"
  let ?comp = "if ?deg ! ?dn = 0 then computed @ [?dn] else computed"
  have res: "forward_arc g score a (scores, degrees, computed) = (?sc, ?deg, ?comp)"
    using dn I(2) by (simp add: forward_arc_def Let_def)
  have D': "a' < numArcs g \<and> upNode g a' \<in> Q" if "a' \<in> insert a D" for a'
    using that a I(3) by auto
  have fin: "finite {a' \<in> D. downNode g a' = ?dn}" by (rule done_in(2) [OF I(3)])
  have "{a' \<in> insert a D. downNode g a' = ?dn} = insert a {a' \<in> D. downNode g a' = ?dn}"
    by auto
  then have card_dn: "card {a' \<in> insert a D. downNode g a' = ?dn}
      = Suc (card {a' \<in> D. downNode g a' = ?dn})"
    using fin a(2) by simp
  have other: "{a' \<in> insert a D. downNode g a' = m} = {a' \<in> D. downNode g a' = m}"
    if "m \<noteq> ?dn" for m
    using that by auto
  have le: "card {a' \<in> insert a D. downNode g a' = ?dn} \<le> numIn g ?dn"
    by (rule done_in(3) [OF D'])
  have deg_dn: "?deg ! ?dn = int (numIn g ?dn) - int (card {a' \<in> insert a D. downNode g a' = ?dn})"
    using I(4) [OF dn] I(2) dn card_dn by simp
  have notready: "?dn \<notin> Q \<union> set computed"
  proof
    assume "?dn \<in> Q \<union> set computed"
    with I(8) [OF dn] have "degrees ! ?dn = 0" by blast
    with I(4) [OF dn] done_in(3) [of D g Q ?dn, OF I(3)]
    have "card {a' \<in> D. downNode g a' = ?dn} = numIn g ?dn" by simp
    from done_all [of D g Q ?dn a, OF I(3) this a(1)] a(2) show False by simp
  qed
  have "a \<in> set (inArcs g ?dn)" using a(1) by (simp add: inArcs_def)
  then have pos: "numIn g ?dn \<noteq> 0" by (auto simp: numIn_def)
  have finv': "finv g Q (insert a D) (?sc, ?deg, ?comp)"
  proof (rule finv_I)
    show "length ?sc = numNodes g" "length ?deg = numNodes g" using I(1,2) by simp_all
    show "a' < numArcs g \<and> upNode g a' \<in> Q" if "a' \<in> insert a D" for a'
      by (rule D' [OF that])
    show "?deg ! m = int (numIn g m) - int (card {a' \<in> insert a D. downNode g a' = m})"
      if "m < numNodes g" for m
    proof (cases "m = ?dn")
      case True
      with deg_dn show ?thesis by simp
    next
      case False
      with I(4) [OF that] other [OF False] show ?thesis by simp
    qed
    show "distinct ?comp" using I(5) notready by simp
    show "set ?comp \<inter> Q = {}" using I(6) notready by auto
    show "m < numNodes g" if "m \<in> Q \<union> set ?comp" for m
    proof (cases "m = ?dn")
      case True
      with dn show ?thesis by simp
    next
      case False
      with that have "m \<in> Q \<union> set computed" by (auto split: if_splits)
      then show ?thesis by (rule I(7))
    qed
    show "m \<in> Q \<union> set ?comp \<longleftrightarrow>
        ?deg ! m = 0 \<and> (numIn g m = 0 \<longrightarrow> m \<in> set (startL g))"
      if "m < numNodes g" for m
    proof (cases "m = ?dn")
      case True
      have "?dn \<in> Q \<union> set ?comp \<longleftrightarrow> ?deg ! ?dn = 0" using notready by auto
      with True pos show ?thesis by simp
    next
      case False
      then have "m \<in> Q \<union> set ?comp \<longleftrightarrow> m \<in> Q \<union> set computed" by auto
      moreover from False have "?deg ! m = degrees ! m" by simp
      ultimately show ?thesis using I(8) [OF that] by simp
    qed
  qed
  have "T \<inter> (Q \<union> set ?comp) = {}"
  proof (cases "?deg ! ?dn = 0")
    case False
    with tq show ?thesis by simp
  next
    case True
    have "?dn \<notin> T"
    proof
      assume "?dn \<in> T"
      with pc obtain a' where a': "a' < numArcs g" "downNode g a' = ?dn" "upNode g a' \<in> T"
        unfolding predclosed_def by blast
      from True deg_dn le
      have "card {a' \<in> insert a D. downNode g a' = ?dn} = numIn g ?dn" by simp
      from done_all [of "insert a D" g Q ?dn a', OF D' this a'(1,2)]
      have "a' \<in> insert a D" by simp
      from D' [OF this] a'(3) tq show False by blast
    qed
    with tq True show ?thesis by auto
  qed
  with finv' show ?thesis unfolding res finvT_def by simp
qed

lemma forward_arcs_finv:
  assumes wf: "wf_graph g" and pc: "predclosed g T"
  shows "distinct as \<Longrightarrow> \<forall>a \<in> set as. a < numArcs g \<and> upNode g a \<in> Q \<and> a \<notin> D \<Longrightarrow>
    finvT g T Q D st \<Longrightarrow> finvT g T Q (D \<union> set as) (fold (forward_arc g score) as st)"
proof (induction as arbitrary: D st)
  case Nil
  then show ?case by simp
next
  case (Cons a as)
  obtain scores degrees computed where st: "st = (scores, degrees, computed)"
    by (cases st)
  from Cons.prems(2) have a: "a < numArcs g" "a \<notin> D" "upNode g a \<in> Q" by simp_all
  have 1: "finvT g T Q (insert a D) (forward_arc g score a st)"
    using Cons.prems(3) unfolding st by (rule forward_arc_finv [OF wf pc _ a])
  have 2: "\<forall>a' \<in> set as. a' < numArcs g \<and> upNode g a' \<in> Q \<and> a' \<notin> insert a D"
    using Cons.prems(1,2) by auto
  from Cons.prems(1) have "distinct as" by simp
  from Cons.IH [OF this 2 1] show ?case by simp
qed

lemma forward_pop:
  assumes wf: "wf_graph g" and pc: "predclosed g T"
    and inv: "linv g T Q (scores, degrees, n # computed)"
  shows "linv g T (insert n Q)
    (fold (forward_arc g (scores ! n)) (outArcs g n) (scores, degrees, computed))"
proof -
  from inv have finv: "finv g Q (outOf g Q) (scores, degrees, n # computed)"
    and tq: "T \<inter> (Q \<union> set (n # computed)) = {}"
    by (simp_all add: linv_def finvT_def)
  note I = finv_D [OF finv]
  from I(5,6) have n: "n \<notin> Q" "n \<notin> set computed" by auto
  have e: "insert n Q \<union> set computed = Q \<union> set (n # computed)" by auto
  have "finv g (insert n Q) (outOf g Q) (scores, degrees, computed)"
  proof (rule finv_I)
    show "length scores = numNodes g" "length degrees = numNodes g" by (rule I(1), rule I(2))
    show "a < numArcs g \<and> upNode g a \<in> insert n Q" if "a \<in> outOf g Q" for a
      using that by (simp add: outOf_def)
    show "degrees ! m = int (numIn g m) - int (card {a \<in> outOf g Q. downNode g a = m})"
      if "m < numNodes g" for m
      by (rule I(4) [OF that])
    show "distinct computed" using I(5) by simp
    show "set computed \<inter> insert n Q = {}" using I(6) n by auto
    show "m < numNodes g" if "m \<in> insert n Q \<union> set computed" for m
      using that I(7) [of m] unfolding e by simp
    show "m \<in> insert n Q \<union> set computed \<longleftrightarrow>
        degrees ! m = 0 \<and> (numIn g m = 0 \<longrightarrow> m \<in> set (startL g))"
      if "m < numNodes g" for m
      using I(8) [OF that] unfolding e by simp
  qed
  with tq have 1: "finvT g T (insert n Q) (outOf g Q) (scores, degrees, computed)"
    unfolding finvT_def e [symmetric] by simp
  have 2: "distinct (outArcs g n)" by (simp add: outArcs_def)
  have 3: "\<forall>a \<in> set (outArcs g n). a < numArcs g \<and> upNode g a \<in> insert n Q \<and> a \<notin> outOf g Q"
    using n(1) by (auto simp: outArcs_def outOf_def)
  have 4: "outOf g Q \<union> set (outArcs g n) = outOf g (insert n Q)"
    by (auto simp: outArcs_def outOf_def)
  from forward_arcs_finv [OF wf pc 2 3 1] show ?thesis
    unfolding linv_def 4 .
qed

lemma forward_loop_linv:
  "wf_graph g \<Longrightarrow> predclosed g T \<Longrightarrow> \<exists>Q. linv g T Q st \<Longrightarrow>
    \<exists>Q. linv g T Q (fst (forward_loop g st), snd (forward_loop g st), [])"
proof (induction g st rule: forward_loop.induct)
  case (1 g scores degrees)
  then show ?case by simp
next
  case (2 g scores degrees n computed)
  from "2.prems"(3) obtain Q where "linv g T Q (scores, degrees, n # computed)" ..
  then have "linv g T (insert n Q)
      (fold (forward_arc g (scores ! n)) (outArcs g n) (scores, degrees, computed))"
    by (rule forward_pop [OF "2.prems"(1,2)])
  then have "\<exists>Q. linv g T Q
      (fold (forward_arc g (scores ! n)) (outArcs g n) (scores, degrees, computed))" ..
  from "2.IH" [OF "2.prems"(1,2) this] show ?case by simp
qed

lemma forward_init_fold:
  "fold (\<lambda>n (sc, q). (sc[n := Fin 0], if numIn g n = 0 then q @ [n] else q)) ss (sc0, q0)
    = (fold (\<lambda>n sc. sc[n := Fin 0]) ss sc0, q0 @ filter (\<lambda>n. numIn g n = 0) ss)"
  by (induction ss arbitrary: sc0 q0) simp_all

lemma length_fold_update: "length (fold (\<lambda>n sc. sc[n := v]) ss sc0) = length sc0"
  by (induction ss arbitrary: sc0) simp_all

lemma forward_init_eq:
  "forward_init g = (fold (\<lambda>n sc. sc[n := Fin 0]) (startL g) (replicate (numNodes g) neginf),
     map (\<lambda>n. int (numIn g n)) [0..<numNodes g], filter (\<lambda>n. numIn g n = 0) (startL g))"
  by (simp add: forward_init_def Let_def forward_init_fold)

lemma predclosed_numIn:
  assumes "predclosed g T" and "m \<in> T"
  shows "numIn g m \<noteq> 0"
proof -
  from assms obtain a where "a < numArcs g" "downNode g a = m"
    unfolding predclosed_def by blast
  then have "a \<in> set (inArcs g m)" by (simp add: inArcs_def)
  then show ?thesis by (auto simp: numIn_def)
qed

lemma forward_init_linv:
  assumes wf: "wf_graph g" and pc: "predclosed g T"
  shows "linv g T {} (forward_init g)"
proof -
  let ?sc = "fold (\<lambda>n sc. sc[n := Fin 0]) (startL g) (replicate (numNodes g) neginf)"
  let ?deg = "map (\<lambda>n. int (numIn g n)) [0..<numNodes g]"
  let ?comp = "filter (\<lambda>n. numIn g n = 0) (startL g)"
  have o: "outOf g {} = {}" by (simp add: outOf_def)
  from wf have ds: "distinct (startL g)" by (simp add: wf_graph_def)
  have "finv g {} {} (?sc, ?deg, ?comp)"
  proof (rule finv_I)
    show "length ?sc = numNodes g" by (simp add: length_fold_update)
    show "length ?deg = numNodes g" by simp
    show "distinct ?comp" using ds by simp
    show "m < numNodes g" if "m \<in> {} \<union> set ?comp" for m
      using that wf_start(1) [OF wf, of m] by simp
    show "m \<in> {} \<union> set ?comp \<longleftrightarrow> ?deg ! m = 0 \<and> (numIn g m = 0 \<longrightarrow> m \<in> set (startL g))"
      if "m < numNodes g" for m
      using that by auto
  qed simp_all
  moreover have "T \<inter> set ?comp = {}"
  proof -
    have "numIn g m \<noteq> 0" if "m \<in> T" for m by (rule predclosed_numIn [OF pc that])
    then show ?thesis by fastforce
  qed
  ultimately show ?thesis
    by (simp add: linv_def finvT_def o forward_init_eq)
qed

lemma forward_accept_throw:
  "m \<in> set as \<Longrightarrow> degrees ! m > 0 \<Longrightarrow> forward_accept scores degrees as s = Inl CycleDetected"
  by (induction as arbitrary: s) auto

lemma edges_iff:
  "(u, n) \<in> edges g \<longleftrightarrow> (\<exists>a. a < numArcs g \<and> upNode g a = u \<and> downNode g a = n)"
proof
  assume "(u, n) \<in> edges g"
  then obtain x where "x \<in> set (arcs g)" "up x = u" "down x = n"
    by (auto simp: edges_def)
  then obtain a where "a < length (arcs g)" "arcs g ! a = x"
    by (auto simp: in_set_conv_nth)
  with \<open>up x = u\<close> \<open>down x = n\<close>
  show "\<exists>a. a < numArcs g \<and> upNode g a = u \<and> downNode g a = n"
    by (auto simp: upNode_def downNode_def numArcs_def)
next
  assume "\<exists>a. a < numArcs g \<and> upNode g a = u \<and> downNode g a = n"
  then obtain a where a: "a < length (arcs g)" "up (arcs g ! a) = u" "down (arcs g ! a) = n"
    by (auto simp: upNode_def downNode_def numArcs_def)
  from a(1) have "arcs g ! a \<in> set (arcs g)" by simp
  then have "(up (arcs g ! a), down (arcs g ! a)) \<in> edges g"
    unfolding edges_def by (simp add: image_iff) blast
  with a show "(u, n) \<in> edges g" by simp
qed

lemma predclosed_behindCycle: "predclosed g (behindCycle g)"
  unfolding predclosed_def
proof
  fix m assume "m \<in> behindCycle g"
  then obtain c where c: "(c, c) \<in> (edges g)\<^sup>+" "(c, m) \<in> (edges g)\<^sup>*"
    by (auto simp: behindCycle_def)
  then have "(c, m) \<in> (edges g)\<^sup>+" by (metis rtranclD)
  then obtain u where u: "(c, u) \<in> (edges g)\<^sup>*" "(u, m) \<in> edges g"
    by (blast dest: tranclD2)
  from u(2) obtain a where "a < numArcs g" "upNode g a = u" "downNode g a = m"
    by (auto simp: edges_iff)
  moreover from c(1) u(1) have "u \<in> behindCycle g" by (auto simp: behindCycle_def)
  ultimately show "\<exists>a. a < numArcs g \<and> downNode g a = m \<and> upNode g a \<in> behindCycle g"
    by blast
qed

text \<open>
  C5, amended: for a well-formed graph with an accept node that lies on a directed cycle
  or can be reached from a node on one, \<open>forward\<close> fails with \<open>CycleDetected\<close>.
\<close>

theorem forward_cycle_detected:
  assumes wf: "wf_graph g" and m: "m \<in> set (acceptL g)"
    and c: "(c, c) \<in> (edges g)\<^sup>+" "(c, m) \<in> (edges g)\<^sup>*"
  shows "forward g = Inl CycleDetected"
proof -
  let ?T = "behindCycle g"
  note pc = predclosed_behindCycle [of g]
  obtain scores degrees where r: "forward_loop g (forward_init g) = (scores, degrees)"
    by (cases "forward_loop g (forward_init g)")
  have "\<exists>Q. linv g ?T Q (forward_init g)"
    using forward_init_linv [OF wf pc] ..
  from forward_loop_linv [OF wf pc this] obtain Q where "linv g ?T Q (scores, degrees, [])"
    by (auto simp: r)
  then have finv: "finv g Q (outOf g Q) (scores, degrees, [])" and tq: "?T \<inter> Q = {}"
    by (simp_all add: linv_def finvT_def)
  note I = finv_D [OF finv]
  from c have mT: "m \<in> ?T" by (auto simp: behindCycle_def)
  have mn: "m < numNodes g" by (rule wf_accept(1) [OF wf m])
  from mT tq have "m \<notin> Q \<union> set []" by auto
  with I(8) [OF mn] predclosed_numIn [OF pc mT] have "degrees ! m \<noteq> 0" by blast
  moreover have "0 \<le> degrees ! m"
    using I(4) [OF mn] done_in(3) [of "outOf g Q" g Q m, OF I(3)] by simp
  ultimately have "degrees ! m > 0" by simp
  from forward_accept_throw [OF m this]
  show ?thesis by (simp add: forward_def forward_output_def r)
qed

theorem forward_cycle_detected_witness:
  "wf_graph loopAccept \<and> 1 \<in> set (acceptL loopAccept) \<and> (1, 1) \<in> (edges loopAccept)\<^sup>+
   \<and> (1, 1) \<in> (edges loopAccept)\<^sup>* \<and> forward loopAccept = Inl CycleDetected"
proof -
  have w: "wf_graph loopAccept"
    by (simp add: wf_graph_def loopAccept_def graph_eval upt2)
  have m: "1 \<in> set (acceptL loopAccept)" by (simp add: loopAccept_def)
  have "(1, 1) \<in> edges loopAccept" by (simp add: edges_def loopAccept_def)
  then have c: "(1, 1) \<in> (edges loopAccept)\<^sup>+" by (rule r_into_trancl)
  have r: "(1, 1) \<in> (edges loopAccept)\<^sup>*" by simp
  from w m c r forward_cycle_detected [OF w m c r] show ?thesis by blast
qed

section \<open>The recurrence that forward solves\<close>

lemma is_path_append:
  "is_path g s (p @ [a]) \<longleftrightarrow> is_path g s p \<and> a < numArcs g \<and> upNode g a = path_end g s p"
  by (induction p arbitrary: s) auto

lemma path_end_append: "path_end g s (p @ [a]) = downNode g a"
  by (induction p arbitrary: s) simp_all





lemma wf_accept_iff:
  assumes "wf_graph g" and "m < numNodes g"
  shows "m \<in> set (acceptL g) \<longleftrightarrow> accept g m"
  using assms by (simp add: wf_graph_def)

lemma pathsTo_disjoint: "m \<noteq> m' \<Longrightarrow> pathsTo g m \<inter> pathsTo g m' = {}"
  by (auto simp: pathsTo_def)

lemma acceptingPaths_eq:
  assumes wf: "wf_graph g"
  shows "acceptingPaths g = \<Union> (pathsTo g ` set (acceptL g))"
proof (intro set_eqI iffI)
  fix x assume "x \<in> acceptingPaths g"
  then obtain s p where e: "x = (s, p)" and a: "accepting_path g s p"
    by (auto simp: acceptingPaths_def)
  from a have m: "path_end g s p < numNodes g" "accept g (path_end g s p)"
    by (simp_all add: accepting_path_def)
  with wf_accept_iff [OF wf m(1)] have "path_end g s p \<in> set (acceptL g)" by simp
  moreover from a have "(s, p) \<in> pathsTo g (path_end g s p)"
    by (simp add: accepting_path_def pathsTo_def)
  ultimately show "x \<in> \<Union> (pathsTo g ` set (acceptL g))" unfolding e by blast
next
  fix x assume "x \<in> \<Union> (pathsTo g ` set (acceptL g))"
  then obtain m where m: "m \<in> set (acceptL g)" and xm: "x \<in> pathsTo g m"
    by auto
  obtain s p where e: "x = (s, p)" by (cases x)
  from xm have P: "(s, p) \<in> pathsTo g m" by (simp add: e)
  from wf_accept [OF wf m] P show "x \<in> acceptingPaths g"
    by (simp add: e acceptingPaths_def accepting_path_def pathsTo_def)
qed

lemma acyclic_edges:
  assumes wf: "wf_graph g" and nc: "\<not> has_cycle g"
  shows "acyclic (edges g)"
  unfolding acyclic_def
proof (intro allI notI)
  fix x assume x: "(x, x) \<in> (edges g)\<^sup>+"
  then obtain z where "(x, z) \<in> edges g" by (blast dest: tranclD)
  then obtain a where "a < numArcs g" "upNode g a = x" by (auto simp: edges_iff)
  with wf_arc(1) [OF wf this(1)] have "x < numNodes g" by simp
  with x nc show False by (auto simp: has_cycle_def)
qed


lemma upt3: "[0..<3] = [0, 1, 2]" by code_simp















section \<open>The recurrence in exact arithmetic\<close>

lemma lse_sum_pos:
  assumes "finite S" and "S \<noteq> {}"
  shows "0 < (\<Sum>x \<in> S. exp (path_sum g (snd x)))"
  using assms by (intro sum_pos) simp_all

lemma lse_union:
  assumes "finite S" and "finite S'" and "S \<inter> S' = {}"
  shows "xlogadd (lse g S) (lse g S') = lse g (S \<union> S')"
proof (cases "S = {}")
  case True
  then show ?thesis by (simp add: lse_def)
next
  case S: False
  show ?thesis
  proof (cases "S' = {}")
    case True
    with S show ?thesis by (simp add: lse_def)
  next
    case False
    let ?f = "\<lambda>x. exp (path_sum g (snd x))"
    have "sum ?f (S \<union> S') = sum ?f S + sum ?f S'"
      by (rule sum.union_disjoint [OF assms])
    moreover note lse_sum_pos [OF assms(1) S, of g] lse_sum_pos [OF assms(2) False, of g]
    ultimately show ?thesis
      using S False by (simp add: lse_def)
  qed
qed

lemma path_sum_append: "path_sum g (p @ [a]) = path_sum g p + fval (weight g a)"
  by (simp add: path_sum_def)

lemma finite_weights_arc:
  assumes "finite_weights g" and "a < numArcs g"
  shows "weight g a = Fin (fval (weight g a))"
  using assms by (simp add: finite_weights_def list_all_length numArcs_def weight_def)

lemma finite_ext: "finite S \<Longrightarrow> finite (ext a S)"
  by (simp add: ext_def)

lemma lse_ext:
  assumes fin: "finite S" and w: "weight g a = Fin w"
  shows "lse g (ext a S) = xadd (lse g S) (weight g a)"
proof (cases "S = {}")
  case True
  then show ?thesis by (simp add: lse_def ext_def w)
next
  case False
  let ?f = "\<lambda>x. exp (path_sum g (snd x))"
  have inj: "inj_on (\<lambda>x. (fst x, snd x @ [a])) S"
    by (auto simp: inj_on_def prod_eq_iff)
  have "sum ?f (ext a S) = (\<Sum>x \<in> S. ?f (fst x, snd x @ [a]))"
    unfolding ext_def by (simp add: sum.reindex [OF inj])
  also have "\<dots> = (\<Sum>x \<in> S. ?f x * exp w)"
    by (rule sum.cong) (simp_all add: path_sum_append w exp_add)
  also have "\<dots> = sum ?f S * exp w"
    by (simp add: sum_distrib_right)
  finally have "ln (sum ?f (ext a S)) = ln (sum ?f S) + w"
    using lse_sum_pos [OF fin False, of g] by (simp add: ln_mult_pos)
  moreover have "ext a S \<noteq> {}" using False by (simp add: ext_def)
  ultimately show ?thesis using False by (simp add: lse_def w)
qed

text \<open>
  The paths into a node: the empty path when it is a start node, and the paths into the
  source of each incoming arc, followed by that arc.
\<close>

lemma pathsTo_unfold:
  "pathsTo g n = {x. x = (n, []) \<and> n < numNodes g \<and> start g n}
     \<union> (\<Union>a \<in> set (inArcs g n). ext a (pathsTo g (upNode g a)))"
proof (intro set_eqI iffI)
  fix x assume x: "x \<in> pathsTo g n"
  obtain s p where e: "x = (s, p)" by (cases x)
  from x have P: "s < numNodes g" "start g s" "is_path g s p" "path_end g s p = n"
    by (simp_all add: e pathsTo_def)
  show "x \<in> {x. x = (n, []) \<and> n < numNodes g \<and> start g n}
     \<union> (\<Union>a \<in> set (inArcs g n). ext a (pathsTo g (upNode g a)))"
  proof (cases "p = []")
    case True
    with P show ?thesis by (simp add: e)
  next
    case False
    let ?a = "last p" and ?q = "butlast p"
    from False have p: "p = ?q @ [?a]" by simp
    from P(3) have "is_path g s (?q @ [?a])" using p by simp
    then have q: "is_path g s ?q" "?a < numArcs g" "upNode g ?a = path_end g s ?q"
      by (simp_all add: is_path_append)
    have "path_end g s (?q @ [?a]) = downNode g ?a" by (rule path_end_append)
    with p P(4) have d: "downNode g ?a = n" by simp
    from q(2) d have 1: "?a \<in> set (inArcs g n)" by (simp add: inArcs_def)
    from P(1,2) q(1,3) have "(s, ?q) \<in> pathsTo g (upNode g ?a)" by (simp add: pathsTo_def)
    then have "(s, ?q @ [?a]) \<in> ext ?a (pathsTo g (upNode g ?a))"
      unfolding ext_def by force
    with p have "x \<in> ext ?a (pathsTo g (upNode g ?a))" by (simp add: e)
    with 1 show ?thesis by blast
  qed
next
  fix x assume "x \<in> {x. x = (n, []) \<and> n < numNodes g \<and> start g n}
     \<union> (\<Union>a \<in> set (inArcs g n). ext a (pathsTo g (upNode g a)))"
  then consider "x = (n, [])" "n < numNodes g" "start g n"
    | a where "a \<in> set (inArcs g n)" "x \<in> ext a (pathsTo g (upNode g a))"
    by blast
  then show "x \<in> pathsTo g n"
  proof cases
    case 1
    then show ?thesis by (simp add: pathsTo_def)
  next
    case 2
    from 2(1) have a: "a < numArcs g" "downNode g a = n" by (simp_all add: inArcs_def)
    from 2(2) obtain s p where e: "x = (s, p @ [a])" and P: "(s, p) \<in> pathsTo g (upNode g a)"
      by (auto simp: ext_def)
    from P a show ?thesis
      by (simp add: e pathsTo_def is_path_append path_end_append)
  qed
qed

lemma ext_disjoint: "a \<noteq> a' \<Longrightarrow> ext a S \<inter> ext a' S' = {}"
  by (auto simp: ext_def)

lemma ext_nonempty: "(n, []) \<notin> ext a S"
  by (auto simp: ext_def)

lemma fold_lse:
  "distinct as \<Longrightarrow> \<forall>a \<in> set as. finite (P a) \<and> c a = lse g (ext a (P a)) \<Longrightarrow>
   finite S \<Longrightarrow> \<forall>a \<in> set as. S \<inter> ext a (P a) = {} \<Longrightarrow>
   fold (\<lambda>a acc. xlogadd (c a) acc) as (lse g S) = lse g (S \<union> (\<Union>a \<in> set as. ext a (P a)))"
proof (induction as arbitrary: S)
  case Nil
  then show ?case by simp
next
  case (Cons a as)
  from Cons.prems(2) have a: "finite (P a)" "c a = lse g (ext a (P a))" by simp_all
  have fE: "finite (ext a (P a))" by (rule finite_ext [OF a(1)])
  from Cons.prems(4) have d: "ext a (P a) \<inter> S = {}" by auto
  have 1: "xlogadd (c a) (lse g S) = lse g (ext a (P a) \<union> S)"
    unfolding a(2) by (rule lse_union [OF fE Cons.prems(3) d])
  have 2: "\<forall>a' \<in> set as. (ext a (P a) \<union> S) \<inter> ext a' (P a') = {}"
  proof
    fix a' assume a': "a' \<in> set as"
    with Cons.prems(1) have "a \<noteq> a'" by auto
    from ext_disjoint [OF this, of "P a" "P a'"] Cons.prems(4) a'
    show "(ext a (P a) \<union> S) \<inter> ext a' (P a') = {}" by auto
  qed
  have 3: "\<forall>a \<in> set as. finite (P a) \<and> c a = lse g (ext a (P a))"
    using Cons.prems(2) by simp
  from Cons.prems(1) have 4: "distinct as" by simp
  from Cons.prems(3) fE have 5: "finite (ext a (P a) \<union> S)" by simp
  have "fold (\<lambda>a acc. xlogadd (c a) acc) (a # as) (lse g S)
      = fold (\<lambda>a acc. xlogadd (c a) acc) as (lse g (ext a (P a) \<union> S))"
    using 1 by simp
  also have "\<dots> = lse g ((ext a (P a) \<union> S) \<union> (\<Union>a \<in> set as. ext a (P a)))"
    by (rule Cons.IH [OF 4 3 5 2])
  also have "(ext a (P a) \<union> S) \<union> (\<Union>a \<in> set as. ext a (P a))
      = S \<union> (\<Union>a \<in> set (a # as). ext a (P a))"
    by auto
  finally show ?case .
qed

text \<open>
  In exact arithmetic the recurrence has one solution on the nodes it speaks of: the
  score of a node is the log-sum-exp over the paths from a start node to it.
\<close>

lemma solves_lse:
  assumes wf: "wf_graph g" and nc: "\<not> has_cycle g" and fw: "finite_weights g"
    and sol: "solves xadd xlogadd g sc"
  shows "n < numNodes g \<Longrightarrow> upstream g n \<Longrightarrow>
    finite (pathsTo g n) \<and> sc ! n = lse g (pathsTo g n)"
proof -
  let ?E = "edges g"
  have "finite ?E" by (simp add: edges_def)
  then have wfE: "wf ?E" using acyclic_edges [OF wf nc] by (rule finite_acyclic_wf)
  show "n < numNodes g \<Longrightarrow> upstream g n \<Longrightarrow>
    finite (pathsTo g n) \<and> sc ! n = lse g (pathsTo g n)"
    using wfE
  proof (induction n rule: wf_induct_rule)
    case (less n)
    from sol less.prems obtain as where as: "distinct as" "set as = set (inArcs g n)"
      "sc ! n = joined xadd xlogadd g sc n as"
      unfolding solves_def by blast
    let ?P = "\<lambda>a. pathsTo g (upNode g a)"
    let ?c = "\<lambda>a. xadd (sc ! upNode g a) (weight g a)"
    let ?S = "{x. x = (n, []) \<and> n < numNodes g \<and> start g n}"
    have arc: "finite (?P a) \<and> ?c a = lse g (ext a (?P a))" if "a \<in> set as" for a
    proof -
      from that as(2) have a: "a < numArcs g" "downNode g a = n" by (simp_all add: inArcs_def)
      let ?u = "upNode g a"
      have un: "?u < numNodes g" by (rule wf_arc(1) [OF wf a(1)])
      from a have e: "(?u, n) \<in> ?E" by (auto simp: edges_iff)
      with less.prems(2) have "upstream g ?u"
        unfolding upstream_def by (meson converse_rtrancl_into_rtrancl)
      from less.IH [OF e un this] have IH: "finite (?P a)" "sc ! ?u = lse g (?P a)"
        by simp_all
      from lse_ext [OF IH(1) finite_weights_arc [OF fw a(1)]] IH show ?thesis by simp
    qed
    have fS: "finite ?S" by simp
    have dS: "\<forall>a \<in> set as. ?S \<inter> ext a (?P a) = {}"
      using ext_nonempty by fastforce
    have init: "(if start g n then Fin 0 else NInf) = lse g ?S"
    proof (cases "start g n")
      case True
      with less.prems(1) have e: "?S = {(n, [])}" by auto
      have "lse g {(n, [])} = Fin 0" by (simp add: lse_def path_sum_def)
      then have "lse g ?S = Fin 0" by (simp only: e)
      with True show ?thesis by (simp only: if_True)
    next
      case False
      then have "?S = {}" by auto
      with False show ?thesis by (simp add: lse_def)
    qed
    have "sc ! n = fold (\<lambda>a acc. xlogadd (?c a) acc) as (lse g ?S)"
      unfolding as(3) joined_def init ..
    also have "\<dots> = lse g (?S \<union> (\<Union>a \<in> set as. ext a (?P a)))"
      by (rule fold_lse [OF as(1) _ fS dS]) (use arc in blast)
    also have "?S \<union> (\<Union>a \<in> set as. ext a (?P a)) = pathsTo g n"
      unfolding as(2) by (rule pathsTo_unfold [symmetric])
    finally have 1: "sc ! n = lse g (pathsTo g n)" .
    have "finite (?S \<union> (\<Union>a \<in> set as. ext a (?P a)))"
      using arc by (auto intro: finite_ext)
    then have "finite (pathsTo g n)"
      unfolding as(2) pathsTo_unfold [symmetric] .
    with 1 show ?case by simp
  qed
qed



lemma fold_accept_lse:
  "distinct as \<Longrightarrow>
   \<forall>a \<in> set as. finite (pathsTo g a) \<and> sc ! a = lse g (pathsTo g a) \<Longrightarrow>
   finite S \<Longrightarrow> \<forall>a \<in> set as. S \<inter> pathsTo g a = {} \<Longrightarrow>
   fold (\<lambda>a acc. xlogadd acc (sc ! a)) as (lse g S) = lse g (S \<union> \<Union> (pathsTo g ` set as))"
proof (induction as arbitrary: S)
  case Nil
  then show ?case by simp
next
  case (Cons a as)
  from Cons.prems(2) have a: "finite (pathsTo g a)" "sc ! a = lse g (pathsTo g a)"
    by simp_all
  from Cons.prems(4) have d: "S \<inter> pathsTo g a = {}" by simp
  have 1: "xlogadd (lse g S) (sc ! a) = lse g (S \<union> pathsTo g a)"
    unfolding a(2) by (rule lse_union [OF Cons.prems(3) a(1) d])
  have 2: "\<forall>a' \<in> set as. (S \<union> pathsTo g a) \<inter> pathsTo g a' = {}"
  proof
    fix a' assume a': "a' \<in> set as"
    with Cons.prems(1) have "a \<noteq> a'" by auto
    from pathsTo_disjoint [OF this, of g] Cons.prems(4) a'
    show "(S \<union> pathsTo g a) \<inter> pathsTo g a' = {}" by auto
  qed
  have 3: "\<forall>a \<in> set as. finite (pathsTo g a) \<and> sc ! a = lse g (pathsTo g a)"
    using Cons.prems(2) by simp
  from Cons.prems(1) have 4: "distinct as" by simp
  from Cons.prems(3) a(1) have 5: "finite (S \<union> pathsTo g a)" by simp
  have "fold (\<lambda>a acc. xlogadd acc (sc ! a)) (a # as) (lse g S)
      = fold (\<lambda>a acc. xlogadd acc (sc ! a)) as (lse g (S \<union> pathsTo g a))"
    using 1 by simp
  also have "\<dots> = lse g ((S \<union> pathsTo g a) \<union> \<Union> (pathsTo g ` set as))"
    by (rule Cons.IH [OF 4 3 5 2])
  also have "(S \<union> pathsTo g a) \<union> \<Union> (pathsTo g ` set as)
      = S \<union> \<Union> (pathsTo g ` set (a # as))"
    by auto
  finally show ?case .
qed

lemma solves_total:
  assumes wf: "wf_graph g" and nc: "\<not> has_cycle g" and fw: "finite_weights g"
    and sol: "solves xadd xlogadd g sc"
  shows "total xlogadd g sc = lse g (acceptingPaths g)"
proof -
  have ready: "\<forall>a \<in> set (acceptL g). finite (pathsTo g a) \<and> sc ! a = lse g (pathsTo g a)"
  proof
    fix a assume a: "a \<in> set (acceptL g)"
    have an: "a < numNodes g" by (rule wf_accept(1) [OF wf a])
    have "upstream g a" using a unfolding upstream_def by blast
    from solves_lse [OF wf nc fw sol an this]
    show "finite (pathsTo g a) \<and> sc ! a = lse g (pathsTo g a)" .
  qed
  from wf have "distinct (acceptL g)" by (simp add: wf_graph_def)
  from fold_accept_lse [OF this ready, of "{}"]
  have "fold (\<lambda>a acc. xlogadd acc (sc ! a)) (acceptL g) (lse g {})
      = lse g (\<Union> (pathsTo g ` set (acceptL g)))"
    by simp
  moreover have "lse g {} = NInf" by (simp add: lse_def)
  ultimately show ?thesis
    by (simp add: total_def acceptingPaths_eq [OF wf])
qed


lemma no_cycle_increasing:
  assumes "\<And>u d. (u, d) \<in> edges g \<Longrightarrow> u < d"
  shows "\<not> has_cycle g"
proof
  assume "has_cycle g"
  then obtain n where n: "(n, n) \<in> (edges g)\<^sup>+" by (auto simp: has_cycle_def)
  have "(u, d) \<in> (edges g)\<^sup>+ \<Longrightarrow> u < d" for u d
    by (induction rule: trancl.induct) (auto dest: assms)
  from this [OF n] show False by simp
qed







lemma round32_flt_max: "round32 flt_max = Fin flt_max"
proof (rule round32_grid [of 127 _ "2 ^ 24 - 1"])
  show "2 powi 127 \<le> \<bar>flt_max\<bar>" "\<bar>flt_max\<bar> < 2 powi (127 + 1)" "\<bar>flt_max\<bar> < 2 ^ 128"
    by (simp_all add: flt_max_def)
  show "flt_max = of_int (2 ^ 24 - 1) * 2 powi (127 - 23)" by (simp add: flt_max_def)
qed simp

lemma round32_2flt_max: "round32 (2 * flt_max) = PInf"
  using fsub_overflows by (simp add: fsub_def)

text \<open>
  The log-sum-exp itself is not what the code returns as soon as a sum rounds or
  overflows. \<open>big2\<close> is a chain of two arcs of weight \<open>FLT_MAX\<close>: its only path has the
  weights sum to \<open>2 \<cdot> FLT_MAX\<close>, and \<open>forward\<close> returns \<open>+inf\<close>.
\<close>

lemma forward_overflows:
  "wf_graph big2 \<and> \<not> has_cycle big2 \<and> sources_start big2 \<and> finite_weights big2
   \<and> forward big2 = Inr (itemGraph PInf)
   \<and> lse big2 (acceptingPaths big2) = Fin (2 * flt_max)"
proof -
  have w: "wf_graph big2"
    by (simp add: wf_graph_def big2_def graph_eval upt3)
  have e: "edges big2 = {(0, 1), (1, 2)}" by (auto simp: edges_def big2_def)
  have c: "\<not> has_cycle big2"
    by (rule no_cycle_increasing) (auto simp: e)
  have "n \<in> set (startL big2)" if "n < numNodes big2" "numIn big2 n = 0" for n
  proof -
    from that(1) have "n = 0 \<or> n = 1 \<or> n = 2" by (auto simp: big2_def numNodes_def)
    with that(2) show ?thesis by (auto simp: big2_def graph_eval upt3)
  qed
  then have ss: "sources_start big2" by (simp add: sources_start_def)
  have fw: "finite_weights big2" by (simp add: finite_weights_def big2_def)
  have f: "forward big2 = Inr (itemGraph PInf)"
    by (simp add: forward_def forward_output_def forward_init_def big2_def graph_eval
        neginf_def logadd_neginf forward_arc_def itemGraph_def round32_flt_max
        round32_2flt_max upt3)
  let ?sc = "[Fin 0, Fin flt_max, Fin (2 * flt_max)]"
  have "\<exists>as. distinct as \<and> set as = set (inArcs big2 n)
      \<and> ?sc ! n = joined xadd xlogadd big2 ?sc n as"
    if "n < numNodes big2" for n
  proof -
    from that have "n = 0 \<or> n = 1 \<or> n = 2" by (auto simp: big2_def numNodes_def)
    then have "distinct (inArcs big2 n)
      \<and> ?sc ! n = joined xadd xlogadd big2 ?sc n (inArcs big2 n)"
      by (auto simp: joined_def big2_def graph_eval upt3)
    then show ?thesis by blast
  qed
  then have "solves xadd xlogadd big2 ?sc"
    by (simp add: solves_def big2_def numNodes_def)
  from solves_total [OF w c fw this]
  have l: "lse big2 (acceptingPaths big2) = Fin (2 * flt_max)"
    by (simp add: total_def big2_def)
  from w c ss fw f l show ?thesis by blast
qed

end
